theory Spec2Isabelle
  imports Main
begin

section \<open>The buffer manager of BadgerDB (src/buffer.cpp)\<close>

text \<open>
  A shallow embedding of \<^verbatim>\<open>badgerdb::BufMgr\<close>. Every member function becomes a function
  from the state before the call to a result and the state after it. A C++ exception is a
  value \<open>Inl e\<close> of the result; the state is returned beside it, because whatever the function
  changed before the \<^verbatim>\<open>throw\<close> stays changed.
\<close>

subsection \<open>Collaborators: files, pages, exceptions\<close>

text \<open>
  Modelled from the spec: the class \<^verbatim>\<open>File\<close> is not part of the source. A file is
  identified by its name (\<^verbatim>\<open>filename(file) -> string\<close>), and two files are equal when their
  names are. The empty name stands for the default-constructed \<^verbatim>\<open>File()\<close>, the "empty
  value" a descriptor's owner is reset to.
\<close>

type_synonym File = string
type_synonym PageId = nat
type_synonym FrameId = nat

text \<open>
  Modelled from the spec: the class \<^verbatim>\<open>Page\<close> is not part of the source. A page carries its
  own number (\<^verbatim>\<open>page_number()\<close>) and its bytes.
\<close>

record Page =
  page_number :: PageId
  page_data :: string

definition blank_page :: "PageId \<Rightarrow> Page" where
  "blank_page p = \<lparr>page_number = p, page_data = []\<rparr>"

text \<open>
  The exceptions of \<^verbatim>\<open>exceptions/*.h\<close>, with the arguments buffer.cpp constructs them with.
\<close>

datatype exn =
    BufferExceeded
  | HashNotFound
  | PageNotPinned string PageId FrameId
  | PagePinned string PageId FrameId
  | BadBuffer FrameId bool bool bool

subsection \<open>The Page Store\<close>

text \<open>
  Modelled from the spec: the Page Store (the member functions \<^verbatim>\<open>readPage\<close>,
  \<^verbatim>\<open>writePage\<close>, \<^verbatim>\<open>allocatePage\<close> and \<^verbatim>\<open>deletePage\<close> of \<^verbatim>\<open>File\<close>) is not part of the
  source. The spec gives it four operations by page identity and no failure mode. The model
  keeps the durable pages, the next page number of each file, and the list of requests the
  buffer manager has made, oldest first. A page the store does not hold reads as a blank
  page with the requested number.
\<close>

datatype io_call =
    IoRead File PageId
  | IoWrite File Page
  | IoAllocate File
  | IoDelete File PageId

record PageStore =
  stored :: "File \<times> PageId \<rightharpoonup> Page"
  next_number :: "File \<Rightarrow> PageId"
  calls :: "io_call list"

definition store_readPage :: "File \<Rightarrow> PageId \<Rightarrow> PageStore \<Rightarrow> Page \<times> PageStore" where
  "store_readPage f p st =
     ((case stored st (f, p) of Some pg \<Rightarrow> pg | None \<Rightarrow> blank_page p),
      st\<lparr>calls := calls st @ [IoRead f p]\<rparr>)"

definition store_writePage :: "File \<Rightarrow> Page \<Rightarrow> PageStore \<Rightarrow> PageStore" where
  "store_writePage f pg st =
     st\<lparr>stored := (stored st)((f, page_number pg) \<mapsto> pg),
        calls := calls st @ [IoWrite f pg]\<rparr>"

definition store_allocatePage :: "File \<Rightarrow> PageStore \<Rightarrow> Page \<times> PageStore" where
  "store_allocatePage f st =
     (let p = next_number st f; pg = blank_page p
      in (pg, st\<lparr>stored := (stored st)((f, p) \<mapsto> pg),
                  next_number := (next_number st)(f := Suc p),
                  calls := calls st @ [IoAllocate f]\<rparr>))"

definition store_deletePage :: "File \<Rightarrow> PageId \<Rightarrow> PageStore \<Rightarrow> PageStore" where
  "store_deletePage f p st =
     st\<lparr>stored := (stored st)((f, p) := None),
        calls := calls st @ [IoDelete f p]\<rparr>"

subsection \<open>Frame descriptors\<close>

text \<open>
  Modelled from the spec: the class \<^verbatim>\<open>BufDesc\<close> of buffer.h is not part of the source;
  buffer.cpp reads and writes its fields and calls \<^verbatim>\<open>Set\<close> and \<^verbatim>\<open>clear\<close>. The spec (4.1):
  \<^verbatim>\<open>set(file, page)\<close> records the identity with pinCount = 1, refBit = true, dirty = false;
  \<^verbatim>\<open>clear()\<close> resets every field but the frame id to its empty value. The pin count is
  the number of active holders, a \<open>nat\<close>: buffer.cpp increments it, compares it with 0, and
  decrements it only when it is not 0.
\<close>

record BufDesc =
  "file" :: File
  pageNo :: PageId
  frameNo :: FrameId
  pinCnt :: nat
  dirty :: bool
  valid :: bool
  refbit :: bool

definition BufDesc_clear :: "BufDesc \<Rightarrow> BufDesc" where
  "BufDesc_clear d =
     d\<lparr>pinCnt := 0, file := [], pageNo := 0, dirty := False, refbit := False, valid := False\<rparr>"

definition BufDesc_Set :: "File \<Rightarrow> PageId \<Rightarrow> BufDesc \<Rightarrow> BufDesc" where
  "BufDesc_Set f p d =
     d\<lparr>file := f, pageNo := p, pinCnt := 1, dirty := False, valid := True, refbit := True\<rparr>"

subsection \<open>The state of the buffer manager\<close>

text \<open>
  Modelled from the spec: the struct \<^verbatim>\<open>BufStats\<close> is not part of the source. The spec (4.5)
  gives it the cumulative access count and disk-read count, the two fields buffer.cpp
  increments.
\<close>

record BufStats =
  accesses :: nat
  diskreads :: nat

text \<open>
  The members of \<^verbatim>\<open>BufMgr\<close>, and beside them the two things outside the object that its
  member functions change: the Page Store behind the \<^verbatim>\<open>File&\<close> arguments, and the lines
  written to \<^verbatim>\<open>std::cerr\<close>. The hash table is the Page Index, a map from (file, page
  number) to a frame id.
\<close>

record BufMgr =
  numBufs :: nat
  hashTable :: "File \<times> PageId \<rightharpoonup> FrameId"
  bufDescTable :: "BufDesc list"
  bufPool :: "Page list"
  clockHand :: FrameId
  bufStats :: BufStats
  store :: PageStore
  cerr :: "string list"

text \<open>
  Modelled from the spec: the class \<^verbatim>\<open>BufHashTbl\<close> is not part of the source. The spec
  (6): \<^verbatim>\<open>lookup\<close> fails with a distinct not-found signal (\<^verbatim>\<open>HashNotFoundException\<close>) when
  the pair is absent; \<^verbatim>\<open>insert\<close> and \<^verbatim>\<open>remove\<close> have no failure mode.
\<close>

definition hashTable_lookup :: "File \<Rightarrow> PageId \<Rightarrow> BufMgr \<Rightarrow> exn + FrameId" where
  "hashTable_lookup f p s =
     (case hashTable s (f, p) of None \<Rightarrow> Inl HashNotFound | Some fr \<Rightarrow> Inr fr)"

definition hashTable_insert :: "File \<Rightarrow> PageId \<Rightarrow> FrameId \<Rightarrow> BufMgr \<Rightarrow> BufMgr" where
  "hashTable_insert f p fr s = s\<lparr>hashTable := (hashTable s)((f, p) \<mapsto> fr)\<rparr>"

definition hashTable_remove :: "File \<Rightarrow> PageId \<Rightarrow> BufMgr \<Rightarrow> BufMgr" where
  "hashTable_remove f p s = s\<lparr>hashTable := (hashTable s)((f, p) := None)\<rparr>"

text \<open>Assignments to one descriptor, one pool buffer, and the calls on a \<^verbatim>\<open>File&\<close>.\<close>

definition set_desc :: "FrameId \<Rightarrow> BufDesc \<Rightarrow> BufMgr \<Rightarrow> BufMgr" where
  "set_desc i d s = s\<lparr>bufDescTable := (bufDescTable s)[i := d]\<rparr>"

definition set_page :: "FrameId \<Rightarrow> Page \<Rightarrow> BufMgr \<Rightarrow> BufMgr" where
  "set_page i pg s = s\<lparr>bufPool := (bufPool s)[i := pg]\<rparr>"

definition file_writePage :: "File \<Rightarrow> Page \<Rightarrow> BufMgr \<Rightarrow> BufMgr" where
  "file_writePage f pg s = s\<lparr>store := store_writePage f pg (store s)\<rparr>"

definition file_deletePage :: "File \<Rightarrow> PageId \<Rightarrow> BufMgr \<Rightarrow> BufMgr" where
  "file_deletePage f p s = s\<lparr>store := store_deletePage f p (store s)\<rparr>"

definition log_cerr :: "string \<Rightarrow> BufMgr \<Rightarrow> BufMgr" where
  "log_cerr msg s = s\<lparr>cerr := cerr s @ [msg]\<rparr>"

subsection \<open>Constructor and clock hand\<close>

text \<open>
  \<^verbatim>\<open>BufMgr::BufMgr(bufs)\<close>: every descriptor is free (the constructor sets \<open>valid\<close> to
  false; the other fields have the empty values of a cleared descriptor) and carries its
  own index as frame number; the clock hand starts on the last frame. (\<open>bufs - 1\<close> is 0 on \<open>nat\<close> when
  \<open>bufs = 0\<close>; the C++ wraps to \<open>2^32 - 1\<close>. The predicate \<open>wf_BufMgr\<close> below excludes the empty
  pool, whose every operation indexes out of range.)
\<close>

definition free_desc :: "FrameId \<Rightarrow> BufDesc" where
  "free_desc i =
     \<lparr>file = [], pageNo = 0, frameNo = i, pinCnt = 0, dirty = False, valid = False,
      refbit = False\<rparr>"

definition empty_store :: PageStore where
  "empty_store = \<lparr>stored = Map.empty, next_number = (\<lambda>f. 1), calls = []\<rparr>"

definition BufMgr_new :: "nat \<Rightarrow> PageStore \<Rightarrow> BufMgr" where
  "BufMgr_new bufs st =
     \<lparr>numBufs = bufs,
      hashTable = Map.empty,
      bufDescTable = map free_desc [0..<bufs],
      bufPool = replicate bufs (blank_page 0),
      clockHand = bufs - 1,
      bufStats = \<lparr>accesses = 0, diskreads = 0\<rparr>,
      store = st,
      cerr = []\<rparr>"

definition advanceClock :: "BufMgr \<Rightarrow> BufMgr" where
  "advanceClock s = s\<lparr>clockHand := (clockHand s + 1) mod numBufs s\<rparr>"

subsection \<open>allocBuf: the clock replacement engine\<close>

text \<open>
  The \<^verbatim>\<open>while (frame_count <= numBufs)\<close> loop, with \<open>frame_count\<close> as the argument of the
  recursion. A \<^verbatim>\<open>return\<close> or a \<^verbatim>\<open>break\<close> (both with \<open>alloc = true\<close>) ends it with the
  frame; leaving the loop through its condition leaves \<open>alloc = false\<close> and throws.
  \<open>frame_count\<close> is a \<^verbatim>\<open>uint32_t\<close> that counts up to \<open>numBufs + 1\<close>; \<open>wf_BufMgr\<close> keeps
  \<open>numBufs\<close> below \<open>2^32 - 1\<close>, so the counter never wraps.
\<close>

function allocBuf_loop :: "nat \<Rightarrow> BufMgr \<Rightarrow> (exn + FrameId) \<times> BufMgr" where
  "allocBuf_loop frame_count s =
     (if frame_count \<le> numBufs s then
        (let d = bufDescTable s ! clockHand s in
         if \<not> valid d then (Inr (frameNo d), s)
         else if refbit d then
           allocBuf_loop (frame_count + 1)
             (advanceClock (set_desc (clockHand s) (d\<lparr>refbit := False\<rparr>) s))
         else if pinCnt d = 0 then
           (if dirty d then
              (let s1 = file_writePage (file d) (bufPool s ! clockHand s) s;
                   s2 = hashTable_remove (file d) (pageNo d) s1;
                   s3 = set_desc (clockHand s2) (BufDesc_clear (bufDescTable s2 ! clockHand s2)) s2
               in (Inr (frameNo (bufDescTable s3 ! clockHand s3)), s3))
            else (Inr (frameNo d), s))
         else allocBuf_loop (frame_count + 1) (advanceClock s))
      else (Inl BufferExceeded, s))"
  by pat_completeness auto
termination
  by (relation "measure (\<lambda>(frame_count, s). Suc (numBufs s) - frame_count)")
     (auto simp: advanceClock_def set_desc_def)

declare allocBuf_loop.simps [simp del]

definition allocBuf :: "BufMgr \<Rightarrow> (exn + FrameId) \<times> BufMgr" where
  "allocBuf s = allocBuf_loop 0 s"

subsection \<open>readPage, unPinPage, allocPage\<close>

text \<open>
  The \<^verbatim>\<open>Page*&\<close> out-parameter is the result: \<open>Some fr\<close> when the function assigned
  \<^verbatim>\<open>&bufPool[fr]\<close> to it, \<open>None\<close> when it returned without assigning it.
\<close>

definition readPage :: "File \<Rightarrow> PageId \<Rightarrow> BufMgr \<Rightarrow> (exn + FrameId option) \<times> BufMgr" where
  "readPage f p s =
     (case hashTable_lookup f p s of
        Inr fr \<Rightarrow>
          (let d = bufDescTable s ! fr;
               s1 = set_desc fr (d\<lparr>refbit := True\<rparr>) s;
               d1 = bufDescTable s1 ! fr;
               s2 = set_desc fr (d1\<lparr>pinCnt := pinCnt d1 + 1\<rparr>) s1;
               s3 = s2\<lparr>bufStats := (bufStats s2)\<lparr>accesses := accesses (bufStats s2) + 1\<rparr>\<rparr>
           in (Inr (Some fr), s3))
      | Inl e \<Rightarrow>
          if e = HashNotFound then
            (case allocBuf s of
               (Inr fr, s1) \<Rightarrow>
                 (let (page_to_read, st) = store_readPage f p (store s1);
                      s2 = s1\<lparr>store := st\<rparr>;
                      s3 = s2\<lparr>bufStats := (bufStats s2)\<lparr>diskreads := diskreads (bufStats s2) + 1\<rparr>\<rparr>;
                      s4 = set_page fr page_to_read s3;
                      s5 = hashTable_insert f p fr s4;
                      s6 = set_desc fr (BufDesc_Set f p (bufDescTable s5 ! fr)) s5
                  in (Inr (Some fr), s6))
             | (Inl e', s1) \<Rightarrow>
                 if e' = BufferExceeded then
                   (Inr None, log_cerr ''BufferExceededException: No such buffer found!'' s1)
                 else (Inl e', s1))
          else (Inl e, s))"

definition unPinPage :: "File \<Rightarrow> PageId \<Rightarrow> bool \<Rightarrow> BufMgr \<Rightarrow> (exn + unit) \<times> BufMgr" where
  "unPinPage f p markDirty s =
     (case hashTable_lookup f p s of
        Inr fr \<Rightarrow>
          if pinCnt (bufDescTable s ! fr) = 0 then (Inl (PageNotPinned f p fr), s)
          else
            (let d = bufDescTable s ! fr;
                 s1 = set_desc fr (d\<lparr>pinCnt := pinCnt d - 1\<rparr>) s;
                 s2 = (if markDirty
                       then set_desc fr ((bufDescTable s1 ! fr)\<lparr>dirty := True\<rparr>) s1
                       else s1)
             in (Inr (), s2))
      | Inl e \<Rightarrow>
          if e = HashNotFound
          then (Inr (), log_cerr ''Hash not found while unpinning page!'' s)
          else (Inl e, s))"

text \<open>The results of \<^verbatim>\<open>allocPage\<close> are the page number and the frame of the handle.\<close>

definition allocPage :: "File \<Rightarrow> BufMgr \<Rightarrow> (exn + PageId \<times> FrameId) \<times> BufMgr" where
  "allocPage f s =
     (case allocBuf s of
        (Inl e, s1) \<Rightarrow> (Inl e, s1)
      | (Inr fr, s1) \<Rightarrow>
          (let (page_to_allocate, st) = store_allocatePage f (store s1);
               s2 = s1\<lparr>store := st\<rparr>;
               p = page_number page_to_allocate;
               s3 = set_page fr page_to_allocate s2;
               s4 = s3\<lparr>bufStats := (bufStats s3)\<lparr>accesses := accesses (bufStats s3) + 1\<rparr>\<rparr>;
               s5 = set_desc fr (BufDesc_Set f p (bufDescTable s4 ! fr)) s4;
               s6 = hashTable_insert f p fr s5
           in (Inr (p, fr), s6)))"

subsection \<open>flushFile, disposePage\<close>

text \<open>
  The body of the loop of \<^verbatim>\<open>flushFile\<close> for a frame that has passed both checks (lines
  193 to 201): write the page back and reset the dirty bit if it is set, remove the page
  from the hash table, clear the descriptor.
\<close>

definition flush_frame :: "File \<Rightarrow> FrameId \<Rightarrow> BufMgr \<Rightarrow> BufMgr" where
  "flush_frame f i s =
     (let d = bufDescTable s ! i;
          s1 = (if dirty d
                then set_desc i (d\<lparr>dirty := False\<rparr>) (file_writePage (file d) (bufPool s ! i) s)
                else s);
          s2 = hashTable_remove f (pageNo (bufDescTable s1 ! i)) s1
      in set_desc i (BufDesc_clear (bufDescTable s2 ! i)) s2)"

text \<open>
  The \<^verbatim>\<open>for (FrameId id = 0; id < numBufs; id++)\<close> loop of \<^verbatim>\<open>flushFile\<close>, as a recursion
  over the frame ids still to visit. The pin count is checked before the valid bit, and
  each frame is checked and flushed before the next one is looked at.
\<close>

fun flushFile_loop :: "File \<Rightarrow> FrameId list \<Rightarrow> BufMgr \<Rightarrow> (exn + unit) \<times> BufMgr" where
  "flushFile_loop f [] s = (Inr (), s)"
| "flushFile_loop f (i # ids) s =
     (let d = bufDescTable s ! i in
      if file d = f then
        if pinCnt d \<noteq> 0 then (Inl (PagePinned ''Page is pinned'' (pageNo d) i), s)
        else if \<not> valid d then (Inl (BadBuffer i (dirty d) (valid d) (refbit d)), s)
        else flushFile_loop f ids (flush_frame f i s)
      else flushFile_loop f ids s)"

definition flushFile :: "File \<Rightarrow> BufMgr \<Rightarrow> (exn + unit) \<times> BufMgr" where
  "flushFile f s = flushFile_loop f [0..<numBufs s] s"

definition disposePage :: "File \<Rightarrow> PageId \<Rightarrow> BufMgr \<Rightarrow> (exn + unit) \<times> BufMgr" where
  "disposePage f p s =
     (case hashTable_lookup f p s of
        Inr fr \<Rightarrow>
          (let s1 = set_desc fr (BufDesc_clear (bufDescTable s ! fr)) s;
               s2 = hashTable_remove f p s1
           in (Inr (), file_deletePage f p s2))
      | Inl e \<Rightarrow>
          if e = HashNotFound then (Inr (), file_deletePage f p s)
          else (Inl e, s))"

text \<open>
  The number of advances of the clock hand that bring it from frame \<open>h\<close> to frame \<open>i\<close> in a
  pool of \<open>n\<close> frames.
\<close>

definition clock_distance :: "nat \<Rightarrow> FrameId \<Rightarrow> FrameId \<Rightarrow> nat" where
  "clock_distance n h i = (if h \<le> i then i - h else i + n - h)"

subsection \<open>Well-formed states\<close>

text \<open>
  What the constructor establishes and every operation keeps: a non-empty pool whose size
  fits the \<^verbatim>\<open>uint32_t\<close> sweep counter, tables of that size, the clock hand and every frame
  id of the Page Index inside the pool, and each descriptor carrying its own index. On
  such a state no operation indexes a vector out of range.
\<close>

definition wf_BufMgr :: "BufMgr \<Rightarrow> bool" where
  "wf_BufMgr s \<longleftrightarrow>
     0 < numBufs s \<and> numBufs s < 4294967295 \<and>
     length (bufDescTable s) = numBufs s \<and>
     length (bufPool s) = numBufs s \<and>
     clockHand s < numBufs s \<and>
     (\<forall>i < numBufs s. frameNo (bufDescTable s ! i) = i) \<and>
     (\<forall>k fr. hashTable s k = Some fr \<longrightarrow> fr < numBufs s)"

subsection \<open>Pools reached from the constructor\<close>

text \<open>
  States built by running the operations above from a fresh pool; the theorems below are
  evaluated on them.
\<close>

definition pool1 :: BufMgr where
  "pool1 = BufMgr_new 1 empty_store"

definition pool1_pinned :: BufMgr where
  "pool1_pinned = snd (readPage ''f'' 1 pool1)"

definition pool1_unpinned :: BufMgr where
  "pool1_unpinned = snd (unPinPage ''f'' 1 False pool1_pinned)"

definition pool2_pinned :: BufMgr where
  "pool2_pinned = snd (readPage ''f'' 2 (snd (readPage ''f'' 1 (BufMgr_new 2 empty_store))))"

definition pool2_dirty :: BufMgr where
  "pool2_dirty = snd (unPinPage ''f'' 2 True pool2_pinned)"

definition pool2_second_chance :: BufMgr where
  "pool2_second_chance =
     snd (unPinPage ''f'' 1 False (snd (readPage ''f'' 1
       (snd (unPinPage ''f'' 1 False pool2_pinned)))))"

section \<open>Well-formedness is an invariant\<close>

lemma wf_new: "0 < bufs \<Longrightarrow> bufs < 4294967295 \<Longrightarrow> wf_BufMgr (BufMgr_new bufs st)"
  by (simp add: wf_BufMgr_def BufMgr_new_def free_desc_def)

lemma wf_set_desc: "wf_BufMgr s \<Longrightarrow> frameNo d = i \<Longrightarrow> wf_BufMgr (set_desc i d s)"
  by (cases "i < length (bufDescTable s)") (auto simp: wf_BufMgr_def set_desc_def nth_list_update)

lemma wf_advanceClock: "wf_BufMgr s \<Longrightarrow> wf_BufMgr (advanceClock s)"
  by (simp add: wf_BufMgr_def advanceClock_def)

lemma wf_hashTable_remove: "wf_BufMgr s \<Longrightarrow> wf_BufMgr (hashTable_remove f p s)"
  by (auto simp: wf_BufMgr_def hashTable_remove_def split: if_splits)

lemma wf_hashTable_insert: "wf_BufMgr s \<Longrightarrow> fr < numBufs s \<Longrightarrow> wf_BufMgr (hashTable_insert f p fr s)"
  by (auto simp: wf_BufMgr_def hashTable_insert_def split: if_splits)

lemma wf_file_writePage: "wf_BufMgr s \<Longrightarrow> wf_BufMgr (file_writePage f pg s)"
  by (simp add: wf_BufMgr_def file_writePage_def)

lemma wf_file_deletePage: "wf_BufMgr s \<Longrightarrow> wf_BufMgr (file_deletePage f p s)"
  by (simp add: wf_BufMgr_def file_deletePage_def)

lemma wf_log_cerr: "wf_BufMgr s \<Longrightarrow> wf_BufMgr (log_cerr m s)"
  by (simp add: wf_BufMgr_def log_cerr_def)

lemma wf_set_page: "wf_BufMgr s \<Longrightarrow> wf_BufMgr (set_page i pg s)"
  by (simp add: wf_BufMgr_def set_page_def)

lemma frameNo_clear: "frameNo (BufDesc_clear d) = frameNo d"
  by (simp add: BufDesc_clear_def)

lemma frameNo_Set: "frameNo (BufDesc_Set f p d) = frameNo d"
  by (simp add: BufDesc_Set_def)

lemma wf_frameNo: "wf_BufMgr s \<Longrightarrow> i < numBufs s \<Longrightarrow> frameNo (bufDescTable s ! i) = i"
  by (simp add: wf_BufMgr_def)

lemma wf_clockHand: "wf_BufMgr s \<Longrightarrow> clockHand s < numBufs s"
  by (simp add: wf_BufMgr_def)

lemma wf_allocBuf_loop: "wf_BufMgr s \<Longrightarrow> wf_BufMgr (snd (allocBuf_loop c s))"
proof (induction c s rule: allocBuf_loop.induct)
  case (1 c s)
  let ?d = "bufDescTable s ! clockHand s"
  have h: "clockHand s < numBufs s" "frameNo ?d = clockHand s"
    using "1.prems" by (simp_all add: wf_BufMgr_def)
  show ?case
  proof (cases "c \<le> numBufs s \<and> valid ?d")
    case False
    then show ?thesis using "1.prems" by (subst allocBuf_loop.simps) (auto simp: Let_def)
  next
    case True
    show ?thesis
    proof (cases "refbit ?d")
      case rb: True
      have "wf_BufMgr (advanceClock (set_desc (clockHand s) (?d\<lparr>refbit := False\<rparr>) s))"
        using "1.prems" h by (simp add: wf_advanceClock wf_set_desc)
      then show ?thesis using True rb "1.IH"(1)[OF _ refl]
        by (subst allocBuf_loop.simps) (simp add: Let_def)
    next
      case rb: False
      show ?thesis
      proof (cases "pinCnt ?d = 0")
        case True2: True
        have "wf_BufMgr (set_desc (clockHand s) (BufDesc_clear ?d) (hashTable_remove (file ?d) (pageNo ?d) (file_writePage (file ?d) (bufPool s ! clockHand s) s)))"
          using "1.prems" h by (simp add: wf_set_desc wf_hashTable_remove wf_file_writePage frameNo_clear)
        then show ?thesis using True rb True2 "1.prems"
          by (subst allocBuf_loop.simps) (simp add: Let_def hashTable_remove_def file_writePage_def)
      next
        case False2: False
        then show ?thesis using True rb "1.IH"(2)[OF _ refl] "1.prems"
          by (subst allocBuf_loop.simps) (simp add: Let_def wf_advanceClock)
      qed
    qed
  qed
qed

lemma wf_allocBuf: "wf_BufMgr s \<Longrightarrow> wf_BufMgr (snd (allocBuf s))"
  by (simp add: allocBuf_def wf_allocBuf_loop)

lemma wf_hashTable_range: "wf_BufMgr s \<Longrightarrow> hashTable s k = Some fr \<Longrightarrow> fr < numBufs s"
  unfolding wf_BufMgr_def by blast

lemma wf_unPinPage: "wf_BufMgr s \<Longrightarrow> wf_BufMgr (snd (unPinPage f p m s))"
proof (cases "hashTable s (f, p)")
  case None
  assume "wf_BufMgr s"
  with None show ?thesis
    by (simp add: unPinPage_def hashTable_lookup_def wf_log_cerr)
next
  case (Some fr)
  assume w: "wf_BufMgr s"
  then have fr: "fr < numBufs s" "frameNo (bufDescTable s ! fr) = fr" "fr < length (bufDescTable s)"
    using Some by (auto simp: wf_BufMgr_def)
  have 1: "wf_BufMgr (set_desc fr ((bufDescTable s ! fr)\<lparr>pinCnt := pinCnt (bufDescTable s ! fr) - 1\<rparr>) s)"
    (is "wf_BufMgr ?s1")
    using w fr by (simp add: wf_set_desc)
  have 2: "wf_BufMgr (set_desc fr ((bufDescTable ?s1 ! fr)\<lparr>dirty := True\<rparr>) ?s1)"
    using 1 fr by (rule_tac wf_set_desc) (simp_all add: set_desc_def)
  show ?thesis
    using Some w 1 2 by (simp add: unPinPage_def hashTable_lookup_def Let_def)
qed

lemma wf_disposePage: "wf_BufMgr s \<Longrightarrow> wf_BufMgr (snd (disposePage f p s))"
proof (cases "hashTable s (f, p)")
  case None
  assume "wf_BufMgr s"
  with None show ?thesis
    by (simp add: disposePage_def hashTable_lookup_def wf_file_deletePage)
next
  case (Some fr)
  assume w: "wf_BufMgr s"
  then have "frameNo (bufDescTable s ! fr) = fr"
    using Some by (auto simp: wf_BufMgr_def)
  then show ?thesis
    using Some w
    by (simp add: disposePage_def hashTable_lookup_def Let_def wf_file_deletePage
        wf_hashTable_remove wf_set_desc frameNo_clear)
qed

section \<open>What a sweep of the clock leaves behind\<close>

lemma map_refbit_update:
  "map (refbit_update (\<lambda>_. False)) (xs[i := (xs ! i)\<lparr>refbit := False\<rparr>]) =
   map (refbit_update (\<lambda>_. False)) xs"
  by (cases "i < length xs") (auto simp: list_eq_iff_nth_eq nth_list_update)

lemma allocBuf_loop_Inr:
  "wf_BufMgr s \<Longrightarrow> allocBuf_loop c s = (Inr fr, s') \<Longrightarrow>
     fr = clockHand s' \<and> fr < numBufs s \<and>
     (valid (bufDescTable s ! fr) \<longrightarrow>
        pinCnt (bufDescTable s ! fr) = 0 \<and> pinCnt (bufDescTable s' ! fr) = 0)"
proof (induction c s rule: allocBuf_loop.induct)
  case (1 c s)
  let ?d = "bufDescTable s ! clockHand s"
  have h: "clockHand s < numBufs s" "frameNo ?d = clockHand s"
    "length (bufDescTable s) = numBufs s"
    using "1.prems"(1) by (simp_all add: wf_BufMgr_def)
  show ?case
  proof (cases "c \<le> numBufs s")
    case False
    then show ?thesis using "1.prems"(2) by (subst (asm) allocBuf_loop.simps) simp
  next
    case c: True
    show ?thesis
    proof (cases "valid ?d")
      case False
      then show ?thesis using "1.prems"(2) c h
        by (subst (asm) allocBuf_loop.simps) (auto simp: Let_def)
    next
      case v: True
      show ?thesis
      proof (cases "refbit ?d")
        case rb: True
        let ?s1 = "advanceClock (set_desc (clockHand s) (?d\<lparr>refbit := False\<rparr>) s)"
        have w: "wf_BufMgr ?s1"
          using "1.prems"(1) h by (simp add: wf_advanceClock wf_set_desc)
        have r: "allocBuf_loop (c + 1) ?s1 = (Inr fr, s')"
          using "1.prems"(2) c v rb by (subst (asm) allocBuf_loop.simps) (simp add: Let_def)
        have n: "numBufs ?s1 = numBufs s"
          by (simp add: advanceClock_def set_desc_def)
        have d: "valid (bufDescTable ?s1 ! fr) = valid (bufDescTable s ! fr)"
           "pinCnt (bufDescTable ?s1 ! fr) = pinCnt (bufDescTable s ! fr)"
          using h by (simp_all add: advanceClock_def set_desc_def nth_list_update)
        have "fr = clockHand s' \<and> fr < numBufs ?s1 \<and>
          (valid (bufDescTable ?s1 ! fr) \<longrightarrow>
             pinCnt (bufDescTable ?s1 ! fr) = 0 \<and> pinCnt (bufDescTable s' ! fr) = 0)"
          using "1.IH"(1)[OF c refl _ rb w r] v by blast
        then show ?thesis unfolding n d by blast
      next
        case rb: False
        show ?thesis
        proof (cases "pinCnt ?d = 0")
          case True
          then show ?thesis using "1.prems"(2) c v rb h
            by (subst (asm) allocBuf_loop.simps)
               (auto simp: Let_def set_desc_def hashTable_remove_def file_writePage_def
                  BufDesc_clear_def split: if_splits)
        next
          case p: False
          have w: "wf_BufMgr (advanceClock s)"
            using "1.prems"(1) by (rule wf_advanceClock)
          have r: "allocBuf_loop (c + 1) (advanceClock s) = (Inr fr, s')"
            using "1.prems"(2) c v rb p by (subst (asm) allocBuf_loop.simps) (simp add: Let_def)
          have "fr = clockHand s' \<and> fr < numBufs (advanceClock s) \<and>
            (valid (bufDescTable (advanceClock s) ! fr) \<longrightarrow>
               pinCnt (bufDescTable (advanceClock s) ! fr) = 0 \<and>
               pinCnt (bufDescTable s' ! fr) = 0)"
            using "1.IH"(2)[OF c refl _ rb p w r] v by blast
          then show ?thesis
            by (auto simp: advanceClock_def)
        qed
      qed
    qed
  qed
qed

lemma allocBuf_loop_Inl:
  "allocBuf_loop c s = (Inl e, s') \<Longrightarrow>
     e = BufferExceeded \<and> hashTable s' = hashTable s \<and> store s' = store s \<and>
     bufStats s' = bufStats s \<and> bufPool s' = bufPool s \<and> cerr s' = cerr s \<and>
     numBufs s' = numBufs s \<and>
     map (refbit_update (\<lambda>_. False)) (bufDescTable s') =
       map (refbit_update (\<lambda>_. False)) (bufDescTable s)"
proof (induction c s rule: allocBuf_loop.induct)
  case (1 c s)
  let ?d = "bufDescTable s ! clockHand s"
  show ?case
  proof (cases "c \<le> numBufs s")
    case False
    then show ?thesis using "1.prems" by (subst (asm) allocBuf_loop.simps) auto
  next
    case c: True
    show ?thesis
    proof (cases "valid ?d")
      case False
      then show ?thesis using "1.prems" c
        by (subst (asm) allocBuf_loop.simps) (auto simp: Let_def)
    next
      case v: True
      show ?thesis
      proof (cases "refbit ?d")
        case rb: True
        let ?s1 = "advanceClock (set_desc (clockHand s) (?d\<lparr>refbit := False\<rparr>) s)"
        have r: "allocBuf_loop (c + 1) ?s1 = (Inl e, s')"
          using "1.prems" c v rb by (subst (asm) allocBuf_loop.simps) (simp add: Let_def)
        have m: "map (refbit_update (\<lambda>_. False)) (bufDescTable ?s1) =
                 map (refbit_update (\<lambda>_. False)) (bufDescTable s)"
          by (simp add: advanceClock_def set_desc_def map_refbit_update)
        show ?thesis using "1.IH"(1)[OF c refl _ rb r] v m
          by (simp add: advanceClock_def set_desc_def)
      next
        case rb: False
        show ?thesis
        proof (cases "pinCnt ?d = 0")
          case True
          then show ?thesis using "1.prems" c v rb
            by (subst (asm) allocBuf_loop.simps) (auto simp: Let_def split: if_splits)
        next
          case p: False
          have r: "allocBuf_loop (c + 1) (advanceClock s) = (Inl e, s')"
            using "1.prems" c v rb p by (subst (asm) allocBuf_loop.simps) (simp add: Let_def)
          show ?thesis using "1.IH"(2)[OF c refl _ rb p r] v
            by (simp add: advanceClock_def)
        qed
      qed
    qed
  qed
qed

lemma allocBuf_loop_bufStats: "bufStats (snd (allocBuf_loop c s)) = bufStats s"
proof (induction c s rule: allocBuf_loop.induct)
  case (1 c s)
  show ?case
    using "1.IH"
    by (subst allocBuf_loop.simps)
       (auto simp: Let_def advanceClock_def set_desc_def hashTable_remove_def file_writePage_def)
qed

lemma allocBuf_Inr_range:
  "wf_BufMgr s \<Longrightarrow> allocBuf s = (Inr fr, s') \<Longrightarrow> fr < numBufs s' \<and> wf_BufMgr s'"
  using allocBuf_loop_Inr[of s 0 fr s'] wf_allocBuf[of s]
  by (auto simp: allocBuf_def wf_BufMgr_def)

lemma wf_readPage: "wf_BufMgr s \<Longrightarrow> wf_BufMgr (snd (readPage f p s))"
proof (cases "hashTable s (f, p)")
  case (Some fr)
  assume w: "wf_BufMgr s"
  then have fr: "fr < numBufs s" "frameNo (bufDescTable s ! fr) = fr"
    "fr < length (bufDescTable s)"
    using Some by (auto simp: wf_BufMgr_def)
  let ?s1 = "set_desc fr ((bufDescTable s ! fr)\<lparr>refbit := True\<rparr>) s"
  have 1: "wf_BufMgr ?s1"
    using w fr by (simp add: wf_set_desc)
  have 2: "wf_BufMgr (set_desc fr ((bufDescTable ?s1 ! fr)\<lparr>pinCnt := pinCnt (bufDescTable ?s1 ! fr) + 1\<rparr>) ?s1)"
    using 1 fr by (rule_tac wf_set_desc) (simp_all add: set_desc_def)
  then have "wf_BufMgr (set_desc fr ((bufDescTable ?s1 ! fr)\<lparr>pinCnt := pinCnt (bufDescTable ?s1 ! fr) + 1\<rparr>) ?s1
      \<lparr>bufStats := b\<rparr>)" for b
    by (simp add: wf_BufMgr_def)
  then show ?thesis
    using Some by (simp add: readPage_def hashTable_lookup_def Let_def)
next
  case None
  assume w: "wf_BufMgr s"
  show ?thesis
  proof (cases "allocBuf s")
    case (Pair r s1)
    have w1: "wf_BufMgr s1"
      using wf_allocBuf[OF w] Pair by simp
    show ?thesis
    proof (cases r)
      case (Inl e)
      then show ?thesis using None Pair w1
        by (simp add: readPage_def hashTable_lookup_def wf_log_cerr)
    next
      case (Inr fr)
      then have fr: "fr < numBufs s1"
        using allocBuf_Inr_range[OF w] Pair by simp
      then have f2: "frameNo (bufDescTable s1 ! fr) = fr" "fr < length (bufDescTable s1)"
        using w1 by (simp_all add: wf_BufMgr_def)
      have "wf_BufMgr (s1\<lparr>store := st, bufStats := b\<rparr>)" for st b
        using w1 by (simp add: wf_BufMgr_def)
      then have "wf_BufMgr (hashTable_insert f p fr (set_page fr pg (s1\<lparr>store := st, bufStats := b\<rparr>)))"
        (is "wf_BufMgr ?s5") for st b pg
        using fr by (intro wf_hashTable_insert wf_set_page) (simp_all add: set_page_def)
      then have "wf_BufMgr (set_desc fr (BufDesc_Set f p (bufDescTable (hashTable_insert f p fr (set_page fr pg (s1\<lparr>store := st, bufStats := b\<rparr>))) ! fr)) (hashTable_insert f p fr (set_page fr pg (s1\<lparr>store := st, bufStats := b\<rparr>))))"
        for st b pg
        using f2 by (intro wf_set_desc) (simp_all add: frameNo_Set hashTable_insert_def set_page_def)
      then show ?thesis using None Pair Inr
        by (simp add: readPage_def hashTable_lookup_def Let_def store_readPage_def)
    qed
  qed
qed

lemma wf_allocPage: "wf_BufMgr s \<Longrightarrow> wf_BufMgr (snd (allocPage f s))"
proof -
  assume w: "wf_BufMgr s"
  show ?thesis
  proof (cases "allocBuf s")
    case (Pair r s1)
    have w1: "wf_BufMgr s1"
      using wf_allocBuf [OF w] Pair by simp
    show ?thesis
    proof (cases r)
      case (Inl e)
      then show ?thesis using Pair w1 by (simp add: allocPage_def)
    next
      case (Inr fr)
      then have fr: "fr < numBufs s1"
        using allocBuf_Inr_range [OF w] Pair by simp
      then have f2: "frameNo (bufDescTable s1 ! fr) = fr"
        using w1 by (simp add: wf_BufMgr_def)
      have "wf_BufMgr (set_page fr pg (s1\<lparr>store := st\<rparr>)\<lparr>bufStats := b\<rparr>)" (is "wf_BufMgr ?s4")
        for st b pg
        using w1 by (simp add: wf_BufMgr_def set_page_def)
      then have "wf_BufMgr (hashTable_insert f p fr
          (set_desc fr (BufDesc_Set f p (bufDescTable (set_page fr pg (s1\<lparr>store := st\<rparr>)\<lparr>bufStats := b\<rparr>) ! fr))
             (set_page fr pg (s1\<lparr>store := st\<rparr>)\<lparr>bufStats := b\<rparr>)))" for st b pg p
        using fr f2
        by (intro wf_hashTable_insert wf_set_desc)
           (simp_all add: frameNo_Set set_page_def set_desc_def)
      then show ?thesis using Pair Inr
        by (simp add: allocPage_def Let_def store_allocatePage_def)
    qed
  qed
qed

lemma wf_pool1: "wf_BufMgr pool1"
  by (simp add: pool1_def wf_new)

lemma wf_pool1_pinned: "wf_BufMgr pool1_pinned"
  by (simp add: pool1_pinned_def wf_readPage wf_pool1)

lemma wf_pool1_unpinned: "wf_BufMgr pool1_unpinned"
  by (simp add: pool1_unpinned_def wf_unPinPage wf_pool1_pinned)

lemma wf_pool2_pinned: "wf_BufMgr pool2_pinned"
  by (simp add: pool2_pinned_def wf_readPage wf_new)

lemma wf_pool2_dirty: "wf_BufMgr pool2_dirty"
  by (simp add: pool2_dirty_def wf_unPinPage wf_pool2_pinned)

lemma wf_pool2_second_chance: "wf_BufMgr pool2_second_chance"
  by (simp add: pool2_second_chance_def wf_unPinPage wf_readPage wf_pool2_pinned)

lemmas eval_defs =
  allocBuf_def allocBuf_loop.simps readPage_def unPinPage_def BufMgr_new_def empty_store_def
  hashTable_lookup_def hashTable_insert_def hashTable_remove_def set_desc_def set_page_def
  BufDesc_Set_def BufDesc_clear_def store_readPage_def store_writePage_def store_deletePage_def
  file_writePage_def file_deletePage_def log_cerr_def
  advanceClock_def free_desc_def blank_page_def disposePage_def flushFile_def flush_frame_def

lemma pool1_pinned_eq:
  "pool1_pinned =
     \<lparr>numBufs = 1, hashTable = [(''f'', 1) \<mapsto> 0],
      bufDescTable = [\<lparr>file = ''f'', pageNo = 1, frameNo = 0, pinCnt = 1, dirty = False,
                       valid = True, refbit = True\<rparr>],
      bufPool = [blank_page 1], clockHand = 0,
      bufStats = \<lparr>accesses = 0, diskreads = 1\<rparr>,
      store = \<lparr>stored = Map.empty, next_number = (\<lambda>f. 1), calls = [IoRead ''f'' 1]\<rparr>,
      cerr = []\<rparr>"
  by (simp add: pool1_pinned_def pool1_def eval_defs)

section \<open>When the sweep fails and when it succeeds\<close>

text \<open>When every frame is valid and pinned the sweep fails, whatever the reference bits.\<close>

lemma allocBuf_loop_all_pinned:
  "\<forall>i < length (bufDescTable s). valid (bufDescTable s ! i) \<and> pinCnt (bufDescTable s ! i) \<noteq> 0 \<Longrightarrow>
   clockHand s < length (bufDescTable s) \<Longrightarrow> length (bufDescTable s) = numBufs s \<Longrightarrow>
   fst (allocBuf_loop c s) = Inl BufferExceeded"
proof (induction c s rule: allocBuf_loop.induct)
  case (1 c s)
  let ?d = "bufDescTable s ! clockHand s"
  have d: "valid ?d" "pinCnt ?d \<noteq> 0"
    using "1.prems" by simp_all
  have n: "0 < numBufs s"
    using "1.prems" by simp
  show ?case
  proof (cases "c \<le> numBufs s")
    case False
    then show ?thesis by (subst allocBuf_loop.simps) simp
  next
    case c: True
    show ?thesis
    proof (cases "refbit ?d")
      case rb: True
      let ?s1 = "advanceClock (set_desc (clockHand s) (?d\<lparr>refbit := False\<rparr>) s)"
      have a: "\<forall>i < length (bufDescTable ?s1).
                 valid (bufDescTable ?s1 ! i) \<and> pinCnt (bufDescTable ?s1 ! i) \<noteq> 0"
        using "1.prems"(1,2) by (auto simp: advanceClock_def set_desc_def nth_list_update)
      have b: "clockHand ?s1 < length (bufDescTable ?s1)" "length (bufDescTable ?s1) = numBufs ?s1"
        using "1.prems" n by (simp_all add: advanceClock_def set_desc_def)
      have "fst (allocBuf_loop (c + 1) ?s1) = Inl BufferExceeded"
        using "1.IH"(1) [OF c refl _ rb a b] d by simp
      then show ?thesis
        using c d rb by (subst allocBuf_loop.simps) (simp add: Let_def)
    next
      case rb: False
      have a: "\<forall>i < length (bufDescTable (advanceClock s)).
                 valid (bufDescTable (advanceClock s) ! i) \<and>
                 pinCnt (bufDescTable (advanceClock s) ! i) \<noteq> 0"
        using "1.prems"(1) by (simp add: advanceClock_def)
      have b: "clockHand (advanceClock s) < length (bufDescTable (advanceClock s))"
        "length (bufDescTable (advanceClock s)) = numBufs (advanceClock s)"
        using "1.prems" n by (simp_all add: advanceClock_def)
      have "fst (allocBuf_loop (c + 1) (advanceClock s)) = Inl BufferExceeded"
        using "1.IH"(2) [OF c refl _ rb _ a b] d by simp
      then show ?thesis
        using c d rb by (subst allocBuf_loop.simps) (simp add: Let_def)
    qed
  qed
qed

lemma allocBuf_all_pinned:
  assumes "wf_BufMgr s"
    and "\<forall>i < numBufs s. valid (bufDescTable s ! i) \<and> pinCnt (bufDescTable s ! i) \<noteq> 0"
  shows "fst (allocBuf s) = Inl BufferExceeded"
  unfolding allocBuf_def
  using assms by (intro allocBuf_loop_all_pinned) (simp_all add: wf_BufMgr_def)

lemma clock_distance_advance:
  assumes "h < n" "i < n" "clock_distance n h i = Suc k"
  shows "clock_distance n ((h + 1) mod n) i = k"
proof (cases "h + 1 = n")
  case True
  then show ?thesis using assms by (auto simp: clock_distance_def split: if_splits)
next
  case False
  then have "(h + 1) mod n = h + 1" using assms by simp
  then show ?thesis using assms by (auto simp: clock_distance_def split: if_splits)
qed

text \<open>
  A frame that the sweep would claim on a visit (free, or valid with reference bit clear
  and pin count 0) is claimed, or an earlier one is, as long as the sweep has enough busy
  visits left to reach it.
\<close>

lemma allocBuf_loop_claims:
  assumes "wf_BufMgr s" and "i < numBufs s"
    and "\<not> valid (bufDescTable s ! i) \<or>
         (\<not> refbit (bufDescTable s ! i) \<and> pinCnt (bufDescTable s ! i) = 0)"
    and "c + clock_distance (numBufs s) (clockHand s) i \<le> numBufs s"
  shows "\<exists>fr. fst (allocBuf_loop c s) = Inr fr"
  using assms
proof (induction k \<equiv> "clock_distance (numBufs s) (clockHand s) i" arbitrary: c s)
  case 0
  have h: "clockHand s < numBufs s"
    using "0.prems"(1) by (simp add: wf_BufMgr_def)
  have "clockHand s = i"
    using "0.hyps" h "0.prems"(2) by (auto simp: clock_distance_def split: if_splits)
  moreover have "c \<le> numBufs s"
    using "0.prems"(4) by simp
  ultimately show ?case
    using "0.prems"(3)
    by (subst allocBuf_loop.simps) (auto simp: Let_def)
next
  case (Suc k)
  let ?d = "bufDescTable s ! clockHand s"
  have h: "clockHand s < numBufs s" and len: "length (bufDescTable s) = numBufs s"
    and fn: "frameNo ?d = clockHand s"
    using Suc.prems(1) by (simp_all add: wf_BufMgr_def)
  have ne: "clockHand s \<noteq> i"
    using Suc.hyps(2) by (auto simp: clock_distance_def)
  have c: "c \<le> numBufs s" and c1: "c + 1 + k \<le> numBufs s"
    using Suc.prems(4) Suc.hyps(2) by simp_all
  have adv: "clock_distance (numBufs s) ((clockHand s + 1) mod numBufs s) i = k"
    using clock_distance_advance [OF h Suc.prems(2)] Suc.hyps(2) by simp
  show ?case
  proof (cases "valid ?d \<and> (refbit ?d \<or> pinCnt ?d \<noteq> 0)")
    case False
    then show ?thesis
      using c by (subst allocBuf_loop.simps) (auto simp: Let_def)
  next
    case True
    show ?thesis
    proof (cases "refbit ?d")
      case rb: True
      let ?s1 = "advanceClock (set_desc (clockHand s) (?d\<lparr>refbit := False\<rparr>) s)"
      have w: "wf_BufMgr ?s1"
        using Suc.prems(1) fn by (simp add: wf_advanceClock wf_set_desc)
      have n1: "numBufs ?s1 = numBufs s"
        and h1: "clockHand ?s1 = (clockHand s + 1) mod numBufs s"
        and d1: "bufDescTable ?s1 ! i = bufDescTable s ! i"
        using ne by (simp_all add: advanceClock_def set_desc_def)
      have "\<exists>fr. fst (allocBuf_loop (c + 1) ?s1) = Inr fr"
      proof (rule Suc.hyps(1))
        show "k = clock_distance (numBufs ?s1) (clockHand ?s1) i"
          unfolding n1 h1 using adv by simp
        show "wf_BufMgr ?s1" by (rule w)
        show "i < numBufs ?s1" unfolding n1 by (rule Suc.prems(2))
        show "\<not> valid (bufDescTable ?s1 ! i) \<or>
              (\<not> refbit (bufDescTable ?s1 ! i) \<and> pinCnt (bufDescTable ?s1 ! i) = 0)"
          unfolding d1 by (rule Suc.prems(3))
        show "c + 1 + clock_distance (numBufs ?s1) (clockHand ?s1) i \<le> numBufs ?s1"
          unfolding n1 h1 adv by (rule c1)
      qed
      then show ?thesis
        using c True rb by (subst allocBuf_loop.simps) (simp add: Let_def)
    next
      case rb: False
      then have p: "pinCnt ?d \<noteq> 0" using True by simp
      let ?s1 = "advanceClock s"
      have n1: "numBufs ?s1 = numBufs s"
        and h1: "clockHand ?s1 = (clockHand s + 1) mod numBufs s"
        and d1: "bufDescTable ?s1 ! i = bufDescTable s ! i"
        by (simp_all add: advanceClock_def)
      have "\<exists>fr. fst (allocBuf_loop (c + 1) ?s1) = Inr fr"
      proof (rule Suc.hyps(1))
        show "k = clock_distance (numBufs ?s1) (clockHand ?s1) i"
          unfolding n1 h1 using adv by simp
        show "wf_BufMgr ?s1" using Suc.prems(1) by (rule wf_advanceClock)
        show "i < numBufs ?s1" unfolding n1 by (rule Suc.prems(2))
        show "\<not> valid (bufDescTable ?s1 ! i) \<or>
              (\<not> refbit (bufDescTable ?s1 ! i) \<and> pinCnt (bufDescTable ?s1 ! i) = 0)"
          unfolding d1 by (rule Suc.prems(3))
        show "c + 1 + clock_distance (numBufs ?s1) (clockHand ?s1) i \<le> numBufs ?s1"
          unfolding n1 h1 adv by (rule c1)
      qed
      then show ?thesis
        using c True rb p by (subst allocBuf_loop.simps) (simp add: Let_def)
    qed
  qed
qed

lemma clock_distance_less: "h < n \<Longrightarrow> i < n \<Longrightarrow> clock_distance n h i < n"
  by (auto simp: clock_distance_def)

text \<open>
  A sufficient condition for success: \<^verbatim>\<open>allocBuf\<close> returns a frame whenever some frame
  is free, or is valid and unpinned with its reference bit clear.
\<close>

lemma allocBuf_succeeds:
  assumes "wf_BufMgr s" and "i < numBufs s"
    and "\<not> valid (bufDescTable s ! i) \<or>
         (\<not> refbit (bufDescTable s ! i) \<and> pinCnt (bufDescTable s ! i) = 0)"
  shows "\<exists>fr. fst (allocBuf s) = Inr fr"
proof -
  have "clockHand s < numBufs s"
    using assms(1) by (simp add: wf_BufMgr_def)
  then have "0 + clock_distance (numBufs s) (clockHand s) i \<le> numBufs s"
    using clock_distance_less [of "clockHand s" "numBufs s" i] assms(2) by simp
  then show ?thesis
    unfolding allocBuf_def by (rule allocBuf_loop_claims [OF assms])
qed

lemma clock_distance_back: "h < n \<Longrightarrow> clock_distance n ((h + 1) mod n) h = n - 1"
proof (cases "h + 1 = n")
  case True
  assume "h < n"
  with True show ?thesis by (auto simp: clock_distance_def)
next
  case False
  assume "h < n"
  with False have "(h + 1) mod n = h + 1" by simp
  then show ?thesis using \<open>h < n\<close> by (simp add: clock_distance_def)
qed

text \<open>
  The one frame the sweep visits twice is the one under the clock hand: when it is valid
  and unpinned, \<^verbatim>\<open>allocBuf\<close> returns a frame even if its reference bit is set.
\<close>

lemma allocBuf_succeeds_under_hand:
  assumes "wf_BufMgr s"
    and "valid (bufDescTable s ! clockHand s)" and "pinCnt (bufDescTable s ! clockHand s) = 0"
  shows "\<exists>fr. fst (allocBuf s) = Inr fr"
proof (cases "refbit (bufDescTable s ! clockHand s)")
  case False
  have "clockHand s < numBufs s"
    using assms(1) by (simp add: wf_BufMgr_def)
  then show ?thesis
    using allocBuf_succeeds [OF assms(1), of "clockHand s"] False assms(3) by simp
next
  case True
  let ?d = "bufDescTable s ! clockHand s"
  let ?s1 = "advanceClock (set_desc (clockHand s) (?d\<lparr>refbit := False\<rparr>) s)"
  have h: "clockHand s < numBufs s" and len: "length (bufDescTable s) = numBufs s"
    and fn: "frameNo ?d = clockHand s"
    using assms(1) by (simp_all add: wf_BufMgr_def)
  have w: "wf_BufMgr ?s1"
    using assms(1) fn by (simp add: wf_advanceClock wf_set_desc)
  have n1: "numBufs ?s1 = numBufs s"
    and h1: "clockHand ?s1 = (clockHand s + 1) mod numBufs s"
    and d1: "bufDescTable ?s1 ! clockHand s = ?d\<lparr>refbit := False\<rparr>"
    using h len by (simp_all add: advanceClock_def set_desc_def)
  have "\<exists>fr. fst (allocBuf_loop 1 ?s1) = Inr fr"
  proof (rule allocBuf_loop_claims [OF w, of "clockHand s"])
    show "clockHand s < numBufs ?s1" unfolding n1 by (rule h)
    show "\<not> valid (bufDescTable ?s1 ! clockHand s) \<or>
          (\<not> refbit (bufDescTable ?s1 ! clockHand s) \<and>
           pinCnt (bufDescTable ?s1 ! clockHand s) = 0)"
      unfolding d1 using assms(3) by simp
    show "1 + clock_distance (numBufs ?s1) (clockHand ?s1) (clockHand s) \<le> numBufs ?s1"
      unfolding n1 h1 clock_distance_back [OF h] using h by simp
  qed
  then show ?thesis
    unfolding allocBuf_def
    using True assms(2) by (subst allocBuf_loop.simps) (simp add: Let_def)
qed

section \<open>The example pools, evaluated\<close>

lemma pool1_unpinned_eq:
  "pool1_unpinned =
     \<lparr>numBufs = 1, hashTable = [(''f'', 1) \<mapsto> 0],
      bufDescTable = [\<lparr>file = ''f'', pageNo = 1, frameNo = 0, pinCnt = 0, dirty = False,
                       valid = True, refbit = True\<rparr>],
      bufPool = [blank_page 1], clockHand = 0,
      bufStats = \<lparr>accesses = 0, diskreads = 1\<rparr>,
      store = \<lparr>stored = Map.empty, next_number = (\<lambda>f. 1), calls = [IoRead ''f'' 1]\<rparr>,
      cerr = []\<rparr>"
  by (simp add: pool1_unpinned_def pool1_pinned_eq unPinPage_def hashTable_lookup_def
      set_desc_def)

lemma upt_0_2: "[0..<2] = [0, Suc 0]"
  by (simp add: numeral_2_eq_2)

lemma pool2_new_eq:
  "BufMgr_new 2 empty_store =
     \<lparr>numBufs = 2, hashTable = Map.empty,
      bufDescTable = [free_desc 0, free_desc 1],
      bufPool = [blank_page 0, blank_page 0], clockHand = 1,
      bufStats = \<lparr>accesses = 0, diskreads = 0\<rparr>,
      store = empty_store, cerr = []\<rparr>"
  by (simp add: BufMgr_new_def upt_0_2 numeral_2_eq_2)

lemma pool2_pinned_eq:
  "pool2_pinned =
     \<lparr>numBufs = 2, hashTable = [(''f'', 1) \<mapsto> 1, (''f'', 2) \<mapsto> 0],
      bufDescTable =
        [\<lparr>file = ''f'', pageNo = 2, frameNo = 0, pinCnt = 1, dirty = False,
          valid = True, refbit = True\<rparr>,
         \<lparr>file = ''f'', pageNo = 1, frameNo = 1, pinCnt = 1, dirty = False,
          valid = True, refbit = False\<rparr>],
      bufPool = [blank_page 2, blank_page 1], clockHand = 0,
      bufStats = \<lparr>accesses = 0, diskreads = 2\<rparr>,
      store = \<lparr>stored = Map.empty, next_number = (\<lambda>f. 1),
                calls = [IoRead ''f'' 1, IoRead ''f'' 2]\<rparr>,
      cerr = []\<rparr>"
  unfolding pool2_pinned_def pool2_new_eq by (simp add: eval_defs)

lemma pool2_dirty_eq:
  "pool2_dirty =
     \<lparr>numBufs = 2, hashTable = [(''f'', 1) \<mapsto> 1, (''f'', 2) \<mapsto> 0],
      bufDescTable =
        [\<lparr>file = ''f'', pageNo = 2, frameNo = 0, pinCnt = 0, dirty = True,
          valid = True, refbit = True\<rparr>,
         \<lparr>file = ''f'', pageNo = 1, frameNo = 1, pinCnt = 1, dirty = False,
          valid = True, refbit = False\<rparr>],
      bufPool = [blank_page 2, blank_page 1], clockHand = 0,
      bufStats = \<lparr>accesses = 0, diskreads = 2\<rparr>,
      store = \<lparr>stored = Map.empty, next_number = (\<lambda>f. 1),
                calls = [IoRead ''f'' 1, IoRead ''f'' 2]\<rparr>,
      cerr = []\<rparr>"
  by (simp add: pool2_dirty_def pool2_pinned_eq unPinPage_def hashTable_lookup_def set_desc_def)

lemma pool2_second_chance_eq:
  "pool2_second_chance =
     \<lparr>numBufs = 2, hashTable = [(''f'', 1) \<mapsto> 1, (''f'', 2) \<mapsto> 0],
      bufDescTable =
        [\<lparr>file = ''f'', pageNo = 2, frameNo = 0, pinCnt = 1, dirty = False,
          valid = True, refbit = True\<rparr>,
         \<lparr>file = ''f'', pageNo = 1, frameNo = 1, pinCnt = 0, dirty = False,
          valid = True, refbit = True\<rparr>],
      bufPool = [blank_page 2, blank_page 1], clockHand = 0,
      bufStats = \<lparr>accesses = 1, diskreads = 2\<rparr>,
      store = \<lparr>stored = Map.empty, next_number = (\<lambda>f. 1),
                calls = [IoRead ''f'' 1, IoRead ''f'' 2]\<rparr>,
      cerr = []\<rparr>"
  by (simp add: pool2_second_chance_def pool2_pinned_eq unPinPage_def readPage_def
      hashTable_lookup_def set_desc_def)

section \<open>Claims about allocBuf\<close>

text \<open>
  Claim C1. On a dirty victim \<^verbatim>\<open>allocBuf\<close> writes the page back, removes its index entry
  and clears the descriptor. On a clean victim it returns the frame and does neither. In
  the pool of one frame holding page 1 of f, unpinned and clean, \<^verbatim>\<open>allocBuf\<close> returns
  frame 0 with (f, 1) still in the Page Index and descriptor 0 still valid; after the
  \<^verbatim>\<open>readPage\<close> of page 2 that caused the eviction, the index maps both (f, 1) and (f, 2)
  to frame 0, whose descriptor carries (f, 2). Had the page been unpinned dirty, the entry
  would be gone and the descriptor free.
\<close>

theorem allocBuf_clean_victim_stale_entry:
  "valid (bufDescTable pool1_unpinned ! 0) \<and>
   pinCnt (bufDescTable pool1_unpinned ! 0) = 0 \<and>
   \<not> dirty (bufDescTable pool1_unpinned ! 0) \<and>
   hashTable pool1_unpinned (''f'', 1) = Some 0 \<and>
   fst (allocBuf pool1_unpinned) = Inr 0 \<and>
   hashTable (snd (allocBuf pool1_unpinned)) (''f'', 1) = Some 0 \<and>
   valid (bufDescTable (snd (allocBuf pool1_unpinned)) ! 0) \<and>
   fst (readPage ''f'' 2 pool1_unpinned) = Inr (Some 0) \<and>
   hashTable (snd (readPage ''f'' 2 pool1_unpinned)) (''f'', 1) = Some 0 \<and>
   hashTable (snd (readPage ''f'' 2 pool1_unpinned)) (''f'', 2) = Some 0 \<and>
   file (bufDescTable (snd (readPage ''f'' 2 pool1_unpinned)) ! 0) = ''f'' \<and>
   pageNo (bufDescTable (snd (readPage ''f'' 2 pool1_unpinned)) ! 0) = 2 \<and>
   fst (allocBuf (snd (unPinPage ''f'' 1 True pool1_pinned))) = Inr 0 \<and>
   hashTable (snd (allocBuf (snd (unPinPage ''f'' 1 True pool1_pinned)))) (''f'', 1) = None \<and>
   \<not> valid (bufDescTable (snd (allocBuf (snd (unPinPage ''f'' 1 True pool1_pinned)))) ! 0)"
  by (simp add: pool1_unpinned_eq pool1_pinned_eq eval_defs)

text \<open>
  Claim C4. When \<^verbatim>\<open>allocBuf\<close> returns a frame whose descriptor was valid before the call
  (an eviction, not the claim of a free frame), the pin count of that frame was 0 before
  the call and is 0 after it. The frame returned is the one under the clock hand, and it
  lies inside the pool.
\<close>

theorem allocBuf_victim_unpinned:
  assumes "wf_BufMgr s" and "allocBuf s = (Inr fr, s')"
    and "valid (bufDescTable s ! fr)"
  shows "pinCnt (bufDescTable s ! fr) = 0 \<and> pinCnt (bufDescTable s' ! fr) = 0 \<and>
         fr = clockHand s' \<and> fr < numBufs s"
  using allocBuf_loop_Inr [of s 0 fr s'] assms by (auto simp: allocBuf_def)

text \<open>
  In the pool of one frame whose page has been read and unpinned, the sweep clears the
  reference bit on its first visit and evicts frame 0 on the second.
\<close>

theorem allocBuf_victim_unpinned_witness:
  "wf_BufMgr pool1_unpinned \<and>
   fst (allocBuf pool1_unpinned) = Inr 0 \<and>
   valid (bufDescTable pool1_unpinned ! 0) \<and>
   pinCnt (bufDescTable pool1_unpinned ! 0) = 0 \<and>
   pinCnt (bufDescTable (snd (allocBuf pool1_unpinned)) ! 0) = 0 \<and>
   clockHand (snd (allocBuf pool1_unpinned)) = 0"
proof -
  have r: "allocBuf pool1_unpinned = (Inr 0, snd (allocBuf pool1_unpinned))"
    by (simp add: pool1_unpinned_eq allocBuf_def allocBuf_loop.simps advanceClock_def
        set_desc_def)
  have v: "valid (bufDescTable pool1_unpinned ! 0)"
    by (simp add: pool1_unpinned_eq)
  show ?thesis
    using allocBuf_victim_unpinned [OF wf_pool1_unpinned r v] r v wf_pool1_unpinned
    by (metis fst_conv)
qed

text \<open>
  Claim C5. The sweep ends after \<open>numBufs + 1\<close> busy visits, so only the frame under the
  clock hand is visited twice. An unpinned frame elsewhere whose reference bit is set has
  the bit cleared on its only visit and is never looked at again. In the pool of two
  frames with the hand on frame 0, frame 0 pinned and frame 1 valid, unpinned and
  referenced, \<^verbatim>\<open>allocBuf\<close> throws \<^verbatim>\<open>BufferExceededException\<close> although frame 1 can be
  freed; called again on the state it left, it returns frame 1.
\<close>

theorem allocBuf_exceeded_with_unpinned_frame:
  "clockHand pool2_second_chance = 0 \<and>
   valid (bufDescTable pool2_second_chance ! 1) \<and>
   pinCnt (bufDescTable pool2_second_chance ! 1) = 0 \<and>
   refbit (bufDescTable pool2_second_chance ! 1) \<and>
   fst (allocBuf pool2_second_chance) = Inl BufferExceeded \<and>
   fst (allocBuf (snd (allocBuf pool2_second_chance))) = Inr 1"
  by (simp add: pool2_second_chance_eq allocBuf_def allocBuf_loop.simps advanceClock_def
      set_desc_def)

section \<open>Claims about readPage\<close>

text \<open>
  Claim C2. The claim asks that a \<^verbatim>\<open>readPage\<close> whose frame allocation fails does not return
  normally. The code catches \<^verbatim>\<open>BufferExceededException\<close>, writes "BufferExceededException:
  No such buffer found!" to \<^verbatim>\<open>std::cerr\<close> and returns. As amended: on an index miss
  whose allocation fails with BufferExceeded, the call returns normally without assigning
  the page pointer; the state after it is the state \<^verbatim>\<open>allocBuf\<close> left, with that one line
  added to the error stream, and in that state the Page Index, the pool buffers, the
  counters and the Page Store are those before the call, and the descriptors differ from
  those before the call in their reference bits at most.
\<close>

theorem readPage_BufferExceeded_caught:
  assumes "hashTable s (f, p) = None" and "allocBuf s = (Inl BufferExceeded, s1)"
  shows "readPage f p s =
           (Inr None, log_cerr ''BufferExceededException: No such buffer found!'' s1) \<and>
         hashTable s1 = hashTable s \<and> bufPool s1 = bufPool s \<and>
         bufStats s1 = bufStats s \<and> store s1 = store s \<and>
         map (\<lambda>d. d\<lparr>refbit := False\<rparr>) (bufDescTable s1) =
           map (\<lambda>d. d\<lparr>refbit := False\<rparr>) (bufDescTable s)"
  using assms allocBuf_loop_Inl [of 0 s BufferExceeded s1]
  by (simp add: readPage_def hashTable_lookup_def allocBuf_def)

theorem readPage_BufferExceeded_caught_witness:
  "hashTable pool1_pinned (''f'', 2) = None \<and>
   fst (allocBuf pool1_pinned) = Inl BufferExceeded \<and>
   fst (readPage ''f'' 2 pool1_pinned) = Inr None \<and>
   cerr (snd (readPage ''f'' 2 pool1_pinned)) =
     [''BufferExceededException: No such buffer found!''] \<and>
   hashTable (snd (readPage ''f'' 2 pool1_pinned)) = hashTable pool1_pinned \<and>
   bufStats (snd (readPage ''f'' 2 pool1_pinned)) = bufStats pool1_pinned"
proof -
  have h: "hashTable pool1_pinned (''f'', 2) = None"
    by (simp add: pool1_pinned_eq)
  have a: "allocBuf pool1_pinned = (Inl BufferExceeded, snd (allocBuf pool1_pinned))"
    by (simp add: pool1_pinned_eq allocBuf_def allocBuf_loop.simps advanceClock_def
        set_desc_def)
  have c: "cerr (snd (allocBuf pool1_pinned)) = []"
    by (simp add: pool1_pinned_eq allocBuf_def allocBuf_loop.simps advanceClock_def
        set_desc_def)
  show ?thesis
    using readPage_BufferExceeded_caught [OF h a] h a c
    by (simp add: log_cerr_def) (metis fst_conv)
qed

text \<open>
  The claim as written fails on the pool of one frame whose only page is pinned: reading
  another page misses, the allocation fails, and the call returns normally with the page
  pointer not assigned.
\<close>

theorem readPage_returns_without_page:
  "hashTable pool1_pinned (''f'', 2) = None \<and>
   fst (allocBuf pool1_pinned) = Inl BufferExceeded \<and>
   fst (readPage ''f'' 2 pool1_pinned) = Inr None"
  by (simp add: pool1_pinned_eq readPage_def hashTable_lookup_def allocBuf_def
      allocBuf_loop.simps advanceClock_def set_desc_def)

text \<open>The counters of \<^verbatim>\<open>readPage\<close> on its two paths, for every state.\<close>

lemma readPage_hit_counters:
  assumes "hashTable s (f, p) = Some fr"
  shows "fst (readPage f p s) = Inr (Some fr) \<and>
         accesses (bufStats (snd (readPage f p s))) = accesses (bufStats s) + 1 \<and>
         diskreads (bufStats (snd (readPage f p s))) = diskreads (bufStats s) \<and>
         store (snd (readPage f p s)) = store s"
  using assms by (simp add: readPage_def hashTable_lookup_def Let_def set_desc_def)

lemma readPage_miss_counters:
  assumes "hashTable s (f, p) = None" and "allocBuf s = (Inr fr, s1)"
  shows "fst (readPage f p s) = Inr (Some fr) \<and>
         accesses (bufStats (snd (readPage f p s))) = accesses (bufStats s) \<and>
         diskreads (bufStats (snd (readPage f p s))) = diskreads (bufStats s) + 1"
proof -
  have "bufStats s1 = bufStats s"
    using allocBuf_loop_bufStats [of 0 s] assms(2) by (simp add: allocBuf_def)
  then show ?thesis
    using assms
    by (simp add: readPage_def hashTable_lookup_def Let_def set_desc_def set_page_def
        hashTable_insert_def store_readPage_def)
qed

text \<open>
  Claim C6. On an index hit \<^verbatim>\<open>readPage\<close> counts one access and no disk read, as the claim
  says. On an index miss that obtains a frame it counts one disk read and no access: the
  miss path has no \<^verbatim>\<open>bufStats.accesses++\<close>, which the hit path and \<^verbatim>\<open>allocPage\<close> have.
  Reading page 1 of f into the fresh pool of one frame misses, obtains frame 0, and leaves
  the access counter at 0 while the disk-read counter goes from 0 to 1.
\<close>

theorem readPage_miss_counts_no_access:
  "hashTable pool1 (''f'', 1) = None \<and>
   fst (readPage ''f'' 1 pool1) = Inr (Some 0) \<and>
   accesses (bufStats pool1) = 0 \<and>
   accesses (bufStats (snd (readPage ''f'' 1 pool1))) = 0 \<and>
   diskreads (bufStats pool1) = 0 \<and>
   diskreads (bufStats (snd (readPage ''f'' 1 pool1))) = 1"
  by (simp add: pool1_def eval_defs)

section \<open>Claims about unPinPage\<close>

text \<open>
  Claim C7. \<^verbatim>\<open>unPinPage(file, pageNo, dirty)\<close> on a page that the Page Index maps to frame
  \<open>fr\<close>: when the frame's pin count is 0 the call throws \<^verbatim>\<open>PageNotPinnedException\<close> and
  the state is the one before the call; otherwise the call returns normally and the only
  change is in descriptor \<open>fr\<close>, whose pin count is one less and whose dirty bit is set
  when \<open>markDirty\<close> is true and keeps its value when it is false.
\<close>

theorem unPinPage_resident:
  assumes "wf_BufMgr s" and "hashTable s (f, p) = Some fr"
  shows "(pinCnt (bufDescTable s ! fr) = 0 \<longrightarrow>
            unPinPage f p markDirty s = (Inl (PageNotPinned f p fr), s)) \<and>
         (pinCnt (bufDescTable s ! fr) \<noteq> 0 \<longrightarrow>
            unPinPage f p markDirty s =
              (Inr (), set_desc fr ((bufDescTable s ! fr)
                         \<lparr>pinCnt := pinCnt (bufDescTable s ! fr) - 1,
                          dirty := markDirty \<or> dirty (bufDescTable s ! fr)\<rparr>) s) \<and>
            Suc (pinCnt (bufDescTable (snd (unPinPage f p markDirty s)) ! fr))
              = pinCnt (bufDescTable s ! fr) \<and>
            dirty (bufDescTable (snd (unPinPage f p markDirty s)) ! fr)
              = (markDirty \<or> dirty (bufDescTable s ! fr)))"
proof -
  have fr: "fr < length (bufDescTable s)"
    using assms by (simp add: wf_BufMgr_def)
  show ?thesis
    using assms(2) fr
    by (simp add: unPinPage_def hashTable_lookup_def Let_def set_desc_def)
qed

text \<open>
  Both branches on reachable pools of one frame: unpinning the page read once (pin count
  1) with \<open>markDirty\<close> leaves pin count 0 and the dirty bit set; unpinning it again throws
  and changes nothing.
\<close>

theorem unPinPage_resident_witness:
  "wf_BufMgr pool1_pinned \<and> hashTable pool1_pinned (''f'', 1) = Some 0 \<and>
   pinCnt (bufDescTable pool1_pinned ! 0) = 1 \<and>
   fst (unPinPage ''f'' 1 True pool1_pinned) = Inr () \<and>
   pinCnt (bufDescTable (snd (unPinPage ''f'' 1 True pool1_pinned)) ! 0) = 0 \<and>
   dirty (bufDescTable (snd (unPinPage ''f'' 1 True pool1_pinned)) ! 0) \<and>
   wf_BufMgr pool1_unpinned \<and> hashTable pool1_unpinned (''f'', 1) = Some 0 \<and>
   pinCnt (bufDescTable pool1_unpinned ! 0) = 0 \<and>
   unPinPage ''f'' 1 True pool1_unpinned = (Inl (PageNotPinned ''f'' 1 0), pool1_unpinned)"
proof -
  have h1: "hashTable pool1_pinned (''f'', 1) = Some 0"
    and p1: "pinCnt (bufDescTable pool1_pinned ! 0) = 1"
    by (simp_all add: pool1_pinned_eq)
  have h2: "hashTable pool1_unpinned (''f'', 1) = Some 0"
    and p2: "pinCnt (bufDescTable pool1_unpinned ! 0) = 0"
    by (simp_all add: pool1_unpinned_eq)
  show ?thesis
    using unPinPage_resident [OF wf_pool1_pinned h1, of True]
      unPinPage_resident [OF wf_pool1_unpinned h2, of True]
      h1 p1 h2 p2 wf_pool1_pinned wf_pool1_unpinned
    by auto
qed

text \<open>
  Claim C9. The claim asks that \<^verbatim>\<open>unPinPage\<close> on a page absent from the Page Index reports
  an error to the caller. The code catches \<^verbatim>\<open>HashNotFoundException\<close>, writes "Hash not
  found while unpinning page!" to \<^verbatim>\<open>std::cerr\<close> and returns normally. As amended: on a page
  absent from the Page Index the call returns normally, and the state after it is the state
  before it with that one line added to the error stream.
\<close>

theorem unPinPage_absent:
  assumes "hashTable s (f, p) = None"
  shows "unPinPage f p markDirty s =
           (Inr (), log_cerr ''Hash not found while unpinning page!'' s)"
  using assms by (simp add: unPinPage_def hashTable_lookup_def)

theorem unPinPage_absent_witness:
  "hashTable pool1 (''g'', 7) = None \<and>
   unPinPage ''g'' 7 True pool1 =
     (Inr (), log_cerr ''Hash not found while unpinning page!'' pool1)"
proof -
  have h: "hashTable pool1 (''g'', 7) = None"
    by (simp add: pool1_def BufMgr_new_def)
  show ?thesis
    using h unPinPage_absent [OF h, of True] by simp
qed

text \<open>
  The claim as written fails on the fresh pool of one frame: page 7 of file g is not in
  the Page Index, and the call does not end in an exception.
\<close>

theorem unPinPage_absent_not_surfaced:
  "hashTable pool1 (''g'', 7) = None \<and> \<not> isl (fst (unPinPage ''g'' 7 True pool1))"
  by (simp add: pool1_def BufMgr_new_def unPinPage_def hashTable_lookup_def)

section \<open>Claims about flushFile\<close>

lemma BufDesc_clear_dirty: "BufDesc_clear (d\<lparr>dirty := b\<rparr>) = BufDesc_clear d"
  by (simp add: BufDesc_clear_def)

lemma flush_frame_clean:
  "\<not> dirty (bufDescTable s ! i) \<Longrightarrow>
   flush_frame f i s =
     s\<lparr>hashTable := (hashTable s)((f, pageNo (bufDescTable s ! i)) := None),
       bufDescTable := (bufDescTable s)[i := BufDesc_clear (bufDescTable s ! i)]\<rparr>"
  by (simp add: flush_frame_def set_desc_def hashTable_remove_def Let_def)

lemma flush_frame_dirty:
  "dirty (bufDescTable s ! i) \<Longrightarrow> i < length (bufDescTable s) \<Longrightarrow>
   flush_frame f i s =
     s\<lparr>store := store_writePage (file (bufDescTable s ! i)) (bufPool s ! i) (store s),
       hashTable := (hashTable s)((f, pageNo (bufDescTable s ! i)) := None),
       bufDescTable := (bufDescTable s)[i := BufDesc_clear (bufDescTable s ! i)]\<rparr>"
  by (simp add: flush_frame_def set_desc_def hashTable_remove_def file_writePage_def
      BufDesc_clear_dirty Let_def)

lemma flush_frame_simps:
  assumes "i < length (bufDescTable s)"
  shows
  "bufDescTable (flush_frame f i s) = (bufDescTable s)[i := BufDesc_clear (bufDescTable s ! i)]"
  "hashTable (flush_frame f i s) = (hashTable s)((f, pageNo (bufDescTable s ! i)) := None)"
  "bufPool (flush_frame f i s) = bufPool s"
  "numBufs (flush_frame f i s) = numBufs s"
  "clockHand (flush_frame f i s) = clockHand s"
  "bufStats (flush_frame f i s) = bufStats s"
  "cerr (flush_frame f i s) = cerr s"
  "calls (store (flush_frame f i s)) =
     calls (store s) @
       (if dirty (bufDescTable s ! i)
        then [IoWrite (file (bufDescTable s ! i)) (bufPool s ! i)] else [])"
  using assms
  by (cases "dirty (bufDescTable s ! i)";
      simp add: flush_frame_clean flush_frame_dirty store_writePage_def)+

lemma wf_flush_frame:
  assumes "wf_BufMgr s" "i < numBufs s"
  shows "wf_BufMgr (flush_frame f i s)"
proof -
  have i: "i < length (bufDescTable s)"
    using assms by (simp add: wf_BufMgr_def)
  show ?thesis
    using assms unfolding wf_BufMgr_def flush_frame_simps[OF i]
    by (auto simp: nth_list_update frameNo_clear split: if_splits)
qed

lemma wf_flushFile_loop:
  "wf_BufMgr s \<Longrightarrow> \<forall>j \<in> set ids. j < numBufs s \<Longrightarrow> wf_BufMgr (snd (flushFile_loop f ids s))"
proof (induction ids arbitrary: s)
  case Nil
  then show ?case by simp
next
  case (Cons i ids)
  have i: "i < length (bufDescTable s)"
    using Cons.prems by (simp add: wf_BufMgr_def)
  have "wf_BufMgr (flush_frame f i s)"
    using Cons.prems by (simp add: wf_flush_frame)
  moreover have "\<forall>j \<in> set ids. j < numBufs (flush_frame f i s)"
    using Cons.prems by (simp add: flush_frame_simps[OF i])
  ultimately have "wf_BufMgr (snd (flushFile_loop f ids (flush_frame f i s)))"
    by (rule Cons.IH)
  moreover have "wf_BufMgr (snd (flushFile_loop f ids s))"
    using Cons.prems by (intro Cons.IH) simp_all
  ultimately show ?case
    using Cons.prems(1) by (simp add: Let_def)
qed

lemma wf_flushFile: "wf_BufMgr s \<Longrightarrow> wf_BufMgr (snd (flushFile f s))"
  by (simp add: flushFile_def wf_flushFile_loop)

lemma flushFile_loop_append:
  "flushFile_loop f (xs @ ys) s =
     (case flushFile_loop f xs s of
        (Inl e, s') \<Rightarrow> (Inl e, s')
      | (Inr u, s') \<Rightarrow> flushFile_loop f ys s')"
  by (induction xs arbitrary: s) (simp_all add: Let_def)

text \<open>
  A run of the loop over frames that all pass the checks: it ends normally; descriptors
  outside the run are untouched; inside it, those of the file are cleared and their pages
  leave the index, the others are untouched; the pool buffers are untouched; the dirty
  ones of the file are written back, in the order of the run.
\<close>

lemma flushFile_loop_good:
  assumes "distinct xs"
    and "\<forall>j \<in> set xs. j < length (bufDescTable s)"
    and "\<forall>j \<in> set xs. file (bufDescTable s ! j) = f \<longrightarrow>
           pinCnt (bufDescTable s ! j) = 0 \<and> valid (bufDescTable s ! j)"
  shows "fst (flushFile_loop f xs s) = Inr () \<and>
         length (bufDescTable (snd (flushFile_loop f xs s))) = length (bufDescTable s) \<and>
         bufPool (snd (flushFile_loop f xs s)) = bufPool s \<and>
         (\<forall>j. j \<notin> set xs \<longrightarrow>
            bufDescTable (snd (flushFile_loop f xs s)) ! j = bufDescTable s ! j) \<and>
         (\<forall>j \<in> set xs. file (bufDescTable s ! j) \<noteq> f \<longrightarrow>
            bufDescTable (snd (flushFile_loop f xs s)) ! j = bufDescTable s ! j) \<and>
         (\<forall>j \<in> set xs. file (bufDescTable s ! j) = f \<longrightarrow>
            bufDescTable (snd (flushFile_loop f xs s)) ! j = BufDesc_clear (bufDescTable s ! j) \<and>
            hashTable (snd (flushFile_loop f xs s)) (f, pageNo (bufDescTable s ! j)) = None) \<and>
         (\<forall>k. hashTable s k = None \<longrightarrow> hashTable (snd (flushFile_loop f xs s)) k = None) \<and>
         calls (store (snd (flushFile_loop f xs s))) =
           calls (store s) @
             map (\<lambda>j. IoWrite f (bufPool s ! j))
               (filter (\<lambda>j. file (bufDescTable s ! j) = f \<and> dirty (bufDescTable s ! j)) xs)"
  using assms
proof (induction xs arbitrary: s)
  case Nil
  then show ?case by simp
next
  case (Cons i xs)
  have i: "i < length (bufDescTable s)" and ni: "i \<notin> set xs" and dx: "distinct xs"
    using Cons.prems by simp_all
  show ?case
  proof (cases "file (bufDescTable s ! i) = f")
    case False
    have "flushFile_loop f (i # xs) s = flushFile_loop f xs s"
      using False by (simp add: Let_def)
    moreover note Cons.IH [of s]
    ultimately show ?thesis
      using Cons.prems False ni by auto
  next
    case True
    let ?s1 = "flush_frame f i s"
    have ok: "pinCnt (bufDescTable s ! i) = 0" "valid (bufDescTable s ! i)"
      using Cons.prems True by simp_all
    have step: "flushFile_loop f (i # xs) s = flushFile_loop f xs ?s1"
      using True ok by (simp add: Let_def)
    have same: "bufDescTable ?s1 ! j = bufDescTable s ! j" if "j \<noteq> i" for j
      using that by (simp add: flush_frame_simps[OF i])
    have p1: "\<forall>j \<in> set xs. j < length (bufDescTable ?s1)"
      using Cons.prems by (simp add: flush_frame_simps[OF i])
    have p2: "\<forall>j \<in> set xs. file (bufDescTable ?s1 ! j) = f \<longrightarrow>
           pinCnt (bufDescTable ?s1 ! j) = 0 \<and> valid (bufDescTable ?s1 ! j)"
      using Cons.prems ni same by (metis list.set_intros(2))
    note ih = Cons.IH [OF dx p1 p2]
    let ?s' = "snd (flushFile_loop f xs ?s1)"
    have a: "fst (flushFile_loop f xs ?s1) = Inr ()"
      and b: "length (bufDescTable ?s') = length (bufDescTable s)"
      and c: "bufPool ?s' = bufPool s"
      using ih by (simp_all add: flush_frame_simps[OF i])
    have ih4: "bufDescTable ?s' ! j = bufDescTable ?s1 ! j" if "j \<notin> set xs" for j
      using ih that by blast
    have ih5: "bufDescTable ?s' ! j = bufDescTable ?s1 ! j"
      if "j \<in> set xs" "file (bufDescTable ?s1 ! j) \<noteq> f" for j
      using ih that by blast
    have ih6: "bufDescTable ?s' ! j = BufDesc_clear (bufDescTable ?s1 ! j) \<and>
               hashTable ?s' (f, pageNo (bufDescTable ?s1 ! j)) = None"
      if "j \<in> set xs" "file (bufDescTable ?s1 ! j) = f" for j
      using ih that by blast
    have ih7: "hashTable ?s' k = None" if "hashTable ?s1 k = None" for k
      using ih that by blast
    have d: "bufDescTable ?s' ! j = bufDescTable s ! j" if "j \<notin> set (i # xs)" for j
      using ih4 [of j] same [of j] that by simp
    have e: "bufDescTable ?s' ! j = bufDescTable s ! j"
      if "j \<in> set (i # xs)" "file (bufDescTable s ! j) \<noteq> f" for j
    proof -
      have "j \<noteq> i" using that True by auto
      then show ?thesis
        using ih5 [of j] same [of j] that by simp
    qed
    have k: "hashTable ?s' k = None" if "hashTable s k = None" for k
      using ih7 [of k] that by (simp add: flush_frame_simps[OF i])
    have k1: "hashTable ?s' (f, pageNo (bufDescTable s ! i)) = None"
      by (rule ih7) (simp add: flush_frame_simps[OF i])
    have g: "bufDescTable ?s' ! j = BufDesc_clear (bufDescTable s ! j) \<and>
             hashTable ?s' (f, pageNo (bufDescTable s ! j)) = None"
      if "j \<in> set (i # xs)" "file (bufDescTable s ! j) = f" for j
    proof (cases "j = i")
      case True
      then have "bufDescTable ?s' ! j = bufDescTable ?s1 ! i"
        using ih4 [of i] ni by simp
      then show ?thesis
        using True k1 i by (simp add: flush_frame_simps[OF i])
    next
      case False
      then have "j \<in> set xs" using that by simp
      then show ?thesis
        using ih6 [of j] that False same [of j] by simp
    qed
    have flt: "filter (\<lambda>j. file (bufDescTable ?s1 ! j) = f \<and> dirty (bufDescTable ?s1 ! j)) xs =
               filter (\<lambda>j. file (bufDescTable s ! j) = f \<and> dirty (bufDescTable s ! j)) xs"
    proof (rule filter_cong [OF refl])
      fix j assume "j \<in> set xs"
      then have "j \<noteq> i" using ni by auto
      then show "(file (bufDescTable ?s1 ! j) = f \<and> dirty (bufDescTable ?s1 ! j)) =
                 (file (bufDescTable s ! j) = f \<and> dirty (bufDescTable s ! j))"
        by (simp add: same)
    qed
    have h: "calls (store ?s') =
           calls (store s) @
             map (\<lambda>j. IoWrite f (bufPool s ! j))
               (filter (\<lambda>j. file (bufDescTable s ! j) = f \<and> dirty (bufDescTable s ! j)) (i # xs))"
      using ih True unfolding flt by (simp add: flush_frame_simps[OF i])
    show ?thesis
      unfolding step
    proof (intro conjI allI ballI impI)
      show "fst (flushFile_loop f xs ?s1) = Inr ()" by (rule a)
      show "length (bufDescTable ?s') = length (bufDescTable s)" by (rule b)
      show "bufPool ?s' = bufPool s" by (rule c)
      show "bufDescTable ?s' ! j = bufDescTable s ! j" if "j \<notin> set (i # xs)" for j
        using that by (rule d)
      show "bufDescTable ?s' ! j = bufDescTable s ! j"
        if "j \<in> set (i # xs)" "file (bufDescTable s ! j) \<noteq> f" for j
        using that by (rule e)
      show "bufDescTable ?s' ! j = BufDesc_clear (bufDescTable s ! j)"
        if "j \<in> set (i # xs)" "file (bufDescTable s ! j) = f" for j
        using g [OF that] by simp
      show "hashTable ?s' (f, pageNo (bufDescTable s ! j)) = None"
        if "j \<in> set (i # xs)" "file (bufDescTable s ! j) = f" for j
        using g [OF that] by simp
      show "hashTable ?s' k = None" if "hashTable s k = None" for k
        using that by (rule k)
      show "calls (store ?s') =
           calls (store s) @
             map (\<lambda>j. IoWrite f (bufPool s ! j))
               (filter (\<lambda>j. file (bufDescTable s ! j) = f \<and> dirty (bufDescTable s ! j)) (i # xs))"
        by (rule h)
    qed
  qed
qed

lemma flushFile_loop_good_index:
  assumes "distinct xs"
    and "\<forall>j \<in> set xs. j < length (bufDescTable s)"
    and "\<forall>j \<in> set xs. file (bufDescTable s ! j) = f \<longrightarrow>
           pinCnt (bufDescTable s ! j) = 0 \<and> valid (bufDescTable s ! j)"
  shows "hashTable (snd (flushFile_loop f xs s)) k =
           (if k \<in> (\<lambda>j. (f, pageNo (bufDescTable s ! j))) `
                    {j \<in> set xs. file (bufDescTable s ! j) = f}
            then None else hashTable s k)"
  using assms
proof (induction xs arbitrary: s)
  case Nil
  then show ?case by simp
next
  case (Cons i xs)
  have i: "i < length (bufDescTable s)" and ni: "i \<notin> set xs" and dx: "distinct xs"
    using Cons.prems by simp_all
  show ?case
  proof (cases "file (bufDescTable s ! i) = f")
    case False
    have step: "flushFile_loop f (i # xs) s = flushFile_loop f xs s"
      using False by (simp add: Let_def)
    have K: "{j \<in> set (i # xs). file (bufDescTable s ! j) = f} =
             {j \<in> set xs. file (bufDescTable s ! j) = f}"
      using False by auto
    show ?thesis
      unfolding step K using Cons.prems by (intro Cons.IH) simp_all
  next
    case True
    let ?s1 = "flush_frame f i s"
    have ok: "pinCnt (bufDescTable s ! i) = 0" "valid (bufDescTable s ! i)"
      using Cons.prems True by simp_all
    have step: "flushFile_loop f (i # xs) s = flushFile_loop f xs ?s1"
      using True ok by (simp add: Let_def)
    have same: "bufDescTable ?s1 ! j = bufDescTable s ! j" if "j \<in> set xs" for j
    proof -
      have "j \<noteq> i" using that ni by auto
      then show ?thesis by (simp add: flush_frame_simps[OF i])
    qed
    have p1: "\<forall>j \<in> set xs. j < length (bufDescTable ?s1)"
      using Cons.prems by (simp add: flush_frame_simps[OF i])
    have p2: "\<forall>j \<in> set xs. file (bufDescTable ?s1 ! j) = f \<longrightarrow>
           pinCnt (bufDescTable ?s1 ! j) = 0 \<and> valid (bufDescTable ?s1 ! j)"
      using Cons.prems same by simp
    have K1: "(\<lambda>j. (f, pageNo (bufDescTable ?s1 ! j))) `
                {j \<in> set xs. file (bufDescTable ?s1 ! j) = f} =
              (\<lambda>j. (f, pageNo (bufDescTable s ! j))) `
                {j \<in> set xs. file (bufDescTable s ! j) = f}"
      using same by (intro image_cong Collect_cong) auto
    have K: "(\<lambda>j. (f, pageNo (bufDescTable s ! j))) `
                {j \<in> set (i # xs). file (bufDescTable s ! j) = f} =
             insert (f, pageNo (bufDescTable s ! i))
               ((\<lambda>j. (f, pageNo (bufDescTable s ! j))) `
                  {j \<in> set xs. file (bufDescTable s ! j) = f})"
      using True by auto
    show ?thesis
      unfolding step K using Cons.IH [OF dx p1 p2] unfolding K1
      by (simp add: flush_frame_simps[OF i])
  qed
qed

lemma upt_split: "i < n \<Longrightarrow> [0..<n] = [0..<i] @ i # [Suc i..<n]"
  using upt_add_eq_append [of 0 i "n - i"] by (simp add: upt_conv_Cons)

text \<open>
  Claim C3. The claim asks that \<^verbatim>\<open>flushFile\<close> leave every frame of the file unmodified
  when it fails. The code checks and flushes one frame at a time, in ascending frame
  order. As amended: let frame \<open>i\<close> be the first frame carrying the file that is pinned
  or invalid. The call fails there, with \<^verbatim>\<open>PagePinnedException\<close> when the pin count is
  not 0 and with \<^verbatim>\<open>BadBufferException\<close> otherwise. Frame \<open>i\<close> and every later frame keep
  their descriptors, no pool buffer changes, and nothing of them is written back. The
  frames of the file before \<open>i\<close> have been flushed already: the dirty ones written back in
  frame order, their pages removed from the Page Index, their descriptors cleared. Frames
  of other files before \<open>i\<close> keep their descriptors.
\<close>

theorem flushFile_first_violation:
  assumes "wf_BufMgr s" and "i < numBufs s"
    and "file (bufDescTable s ! i) = f"
    and "pinCnt (bufDescTable s ! i) \<noteq> 0 \<or> \<not> valid (bufDescTable s ! i)"
    and "\<forall>j < i. file (bufDescTable s ! j) = f \<longrightarrow>
           pinCnt (bufDescTable s ! j) = 0 \<and> valid (bufDescTable s ! j)"
  shows "fst (flushFile f s) =
           Inl (if pinCnt (bufDescTable s ! i) \<noteq> 0
                then PagePinned ''Page is pinned'' (pageNo (bufDescTable s ! i)) i
                else BadBuffer i (dirty (bufDescTable s ! i)) False
                       (refbit (bufDescTable s ! i))) \<and>
         (\<forall>j. i \<le> j \<longrightarrow> bufDescTable (snd (flushFile f s)) ! j = bufDescTable s ! j) \<and>
         bufPool (snd (flushFile f s)) = bufPool s \<and>
         (\<forall>j < i. file (bufDescTable s ! j) = f \<longrightarrow>
            bufDescTable (snd (flushFile f s)) ! j = BufDesc_clear (bufDescTable s ! j)) \<and>
         (\<forall>j < i. file (bufDescTable s ! j) \<noteq> f \<longrightarrow>
            bufDescTable (snd (flushFile f s)) ! j = bufDescTable s ! j) \<and>
         (\<forall>k. hashTable (snd (flushFile f s)) k =
            (if \<exists>j < i. file (bufDescTable s ! j) = f \<and> k = (f, pageNo (bufDescTable s ! j))
             then None else hashTable s k)) \<and>
         calls (store (snd (flushFile f s))) =
           calls (store s) @
             map (\<lambda>j. IoWrite f (bufPool s ! j))
               (filter (\<lambda>j. file (bufDescTable s ! j) = f \<and> dirty (bufDescTable s ! j)) [0..<i])"
proof -
  let ?xs = "[0..<i]"
  let ?s' = "snd (flushFile_loop f ?xs s)"
  let ?d = "bufDescTable s ! i"
  have len: "length (bufDescTable s) = numBufs s"
    using assms(1) by (simp add: wf_BufMgr_def)
  have p0: "distinct ?xs" by simp
  have p1: "\<forall>j \<in> set ?xs. j < length (bufDescTable s)"
    using assms(2) len by simp
  have p2: "\<forall>j \<in> set ?xs. file (bufDescTable s ! j) = f \<longrightarrow>
           pinCnt (bufDescTable s ! j) = 0 \<and> valid (bufDescTable s ! j)"
    using assms(5) by simp
  note good = flushFile_loop_good [OF p0 p1 p2]
  note idx = flushFile_loop_good_index [OF p0 p1 p2]
  have ok: "fst (flushFile_loop f ?xs s) = Inr ()"
    using good by blast
  have keep: "bufDescTable ?s' ! j = bufDescTable s ! j" if "i \<le> j" for j
  proof -
    have "j \<notin> set ?xs" using that by simp
    then show ?thesis using good by blast
  qed
  have di: "bufDescTable ?s' ! i = ?d"
    by (rule keep) simp
  have run: "flushFile f s =
      (Inl (if pinCnt ?d \<noteq> 0 then PagePinned ''Page is pinned'' (pageNo ?d) i
            else BadBuffer i (dirty ?d) False (refbit ?d)), ?s')"
  proof -
    define s' where "s' = ?s'"
    have pre: "flushFile_loop f ?xs s = (Inr (), s')"
      using ok unfolding s'_def by (metis prod.collapse)
    have di': "bufDescTable s' ! i = ?d"
      using di unfolding s'_def .
    have "flushFile f s = flushFile_loop f (?xs @ i # [Suc i..<numBufs s]) s"
      unfolding flushFile_def by (subst upt_split [OF assms(2)]) (rule refl)
    also have "\<dots> = flushFile_loop f (i # [Suc i..<numBufs s]) s'"
      unfolding flushFile_loop_append pre by simp
    also have "\<dots> = (Inl (if pinCnt ?d \<noteq> 0 then PagePinned ''Page is pinned'' (pageNo ?d) i
            else BadBuffer i (dirty ?d) False (refbit ?d)), s')"
      using assms(3,4) di' by (auto simp: Let_def)
    finally show ?thesis unfolding s'_def .
  qed
  have K: "(k \<in> (\<lambda>j. (f, pageNo (bufDescTable s ! j))) `
                {j \<in> set ?xs. file (bufDescTable s ! j) = f}) =
           (\<exists>j < i. file (bufDescTable s ! j) = f \<and> k = (f, pageNo (bufDescTable s ! j)))" for k
    by auto
  show ?thesis
    unfolding run fst_conv snd_conv
  proof (intro conjI allI impI)
    show "bufDescTable ?s' ! j = bufDescTable s ! j" if "i \<le> j" for j
      using that by (rule keep)
    show "bufPool ?s' = bufPool s"
      using good by blast
    show "bufDescTable ?s' ! j = BufDesc_clear (bufDescTable s ! j)"
      if "j < i" "file (bufDescTable s ! j) = f" for j
    proof -
      have "j \<in> set ?xs" using that by simp
      then show ?thesis using good that(2) by blast
    qed
    show "bufDescTable ?s' ! j = bufDescTable s ! j"
      if "j < i" "file (bufDescTable s ! j) \<noteq> f" for j
    proof -
      have "j \<in> set ?xs" using that by simp
      then show ?thesis using good that(2) by blast
    qed
    show "hashTable ?s' k =
            (if \<exists>j < i. file (bufDescTable s ! j) = f \<and> k = (f, pageNo (bufDescTable s ! j))
             then None else hashTable s k)" for k
      using idx [of k] unfolding K .
    show "calls (store ?s') =
           calls (store s) @
             map (\<lambda>j. IoWrite f (bufPool s ! j))
               (filter (\<lambda>j. file (bufDescTable s ! j) = f \<and> dirty (bufDescTable s ! j)) [0..<i])"
      using good by blast
  qed simp
qed

theorem flushFile_first_violation_witness:
  "wf_BufMgr pool2_dirty \<and> 1 < numBufs pool2_dirty \<and>
   file (bufDescTable pool2_dirty ! 1) = ''f'' \<and> pinCnt (bufDescTable pool2_dirty ! 1) = 1 \<and>
   file (bufDescTable pool2_dirty ! 0) = ''f'' \<and> pinCnt (bufDescTable pool2_dirty ! 0) = 0 \<and>
   valid (bufDescTable pool2_dirty ! 0) \<and> dirty (bufDescTable pool2_dirty ! 0) \<and>
   fst (flushFile ''f'' pool2_dirty) = Inl (PagePinned ''Page is pinned'' 1 1) \<and>
   bufDescTable (snd (flushFile ''f'' pool2_dirty)) ! 1 = bufDescTable pool2_dirty ! 1 \<and>
   bufDescTable (snd (flushFile ''f'' pool2_dirty)) ! 0 = free_desc 0 \<and>
   hashTable (snd (flushFile ''f'' pool2_dirty)) (''f'', 2) = None \<and>
   calls (store (snd (flushFile ''f'' pool2_dirty))) =
     [IoRead ''f'' 1, IoRead ''f'' 2, IoWrite ''f'' (blank_page 2)]"
proof -
  have n: "1 < numBufs pool2_dirty"
    and f1: "file (bufDescTable pool2_dirty ! 1) = ''f''"
    and p1: "pinCnt (bufDescTable pool2_dirty ! 1) = 1"
    and d0: "file (bufDescTable pool2_dirty ! 0) = ''f''" "pinCnt (bufDescTable pool2_dirty ! 0) = 0"
      "valid (bufDescTable pool2_dirty ! 0)" "dirty (bufDescTable pool2_dirty ! 0)"
    and pg: "pageNo (bufDescTable pool2_dirty ! 0) = 2" "pageNo (bufDescTable pool2_dirty ! 1) = 1"
      "bufPool pool2_dirty ! 0 = blank_page 2"
      "calls (store pool2_dirty) = [IoRead ''f'' 1, IoRead ''f'' 2]"
      "BufDesc_clear (bufDescTable pool2_dirty ! 0) = free_desc 0"
    by (simp_all add: pool2_dirty_eq BufDesc_clear_def free_desc_def)
  have bad: "pinCnt (bufDescTable pool2_dirty ! 1) \<noteq> 0 \<or> \<not> valid (bufDescTable pool2_dirty ! 1)"
    using p1 by simp
  have first: "\<forall>j < 1. file (bufDescTable pool2_dirty ! j) = ''f'' \<longrightarrow>
           pinCnt (bufDescTable pool2_dirty ! j) = 0 \<and> valid (bufDescTable pool2_dirty ! j)"
    using d0 by simp
  have up: "[0..<1] = [0]" by simp
  show ?thesis
    using flushFile_first_violation [OF wf_pool2_dirty n f1 bad first]
      n f1 p1 d0 pg wf_pool2_dirty
    by (simp add: up)
qed

text \<open>
  The claim as written fails on the pool of two frames in which frame 0 holds page 2 of
  f, unpinned and dirty, and frame 1 holds page 1 of f, pinned: the call fails with
  \<^verbatim>\<open>PagePinnedException\<close> for frame 1, after it has written page 2 back, removed it from
  the Page Index and cleared descriptor 0.
\<close>

theorem flushFile_partial_flush:
  "file (bufDescTable pool2_dirty ! 0) = ''f'' \<and> file (bufDescTable pool2_dirty ! 1) = ''f'' \<and>
   pinCnt (bufDescTable pool2_dirty ! 1) = 1 \<and>
   hashTable pool2_dirty (''f'', 2) = Some 0 \<and>
   fst (flushFile ''f'' pool2_dirty) = Inl (PagePinned ''Page is pinned'' 1 1) \<and>
   bufDescTable (snd (flushFile ''f'' pool2_dirty)) ! 0 \<noteq> bufDescTable pool2_dirty ! 0 \<and>
   hashTable (snd (flushFile ''f'' pool2_dirty)) (''f'', 2) = None \<and>
   calls (store (snd (flushFile ''f'' pool2_dirty))) =
     calls (store pool2_dirty) @ [IoWrite ''f'' (blank_page 2)]"
  by (simp add: pool2_dirty_eq flushFile_def upt_0_2 flush_frame_def set_desc_def
      hashTable_remove_def file_writePage_def store_writePage_def BufDesc_clear_def blank_page_def)

section \<open>Claims about disposePage\<close>

text \<open>
  Claim C8. \<^verbatim>\<open>disposePage(file, PageNo)\<close> always returns normally. Afterwards the pair is
  not in the Page Index, and the Page Store has received one more request, the deletion of
  that page, whether or not the page was resident. On an index hit at frame \<open>fr\<close> the
  descriptor table differs only in descriptor \<open>fr\<close>, which is cleared (not valid); on an
  index miss the descriptor table and the Page Index are unchanged.
\<close>

theorem disposePage_ok:
  assumes "wf_BufMgr s"
  shows "fst (disposePage f p s) = Inr () \<and>
         hashTable (snd (disposePage f p s)) (f, p) = None \<and>
         calls (store (snd (disposePage f p s))) = calls (store s) @ [IoDelete f p] \<and>
         stored (store (snd (disposePage f p s))) (f, p) = None \<and>
         (\<forall>fr. hashTable s (f, p) = Some fr \<longrightarrow>
            bufDescTable (snd (disposePage f p s)) =
              (bufDescTable s)[fr := BufDesc_clear (bufDescTable s ! fr)] \<and>
            \<not> valid (bufDescTable (snd (disposePage f p s)) ! fr)) \<and>
         (hashTable s (f, p) = None \<longrightarrow>
            bufDescTable (snd (disposePage f p s)) = bufDescTable s \<and>
            hashTable (snd (disposePage f p s)) = hashTable s)"
proof (cases "hashTable s (f, p)")
  case None
  then show ?thesis
    by (simp add: disposePage_def hashTable_lookup_def file_deletePage_def store_deletePage_def)
next
  case (Some fr)
  then have "fr < length (bufDescTable s)"
    using assms by (simp add: wf_BufMgr_def)
  with Some show ?thesis
    by (simp add: disposePage_def hashTable_lookup_def file_deletePage_def store_deletePage_def
        Let_def set_desc_def hashTable_remove_def BufDesc_clear_def)
qed

text \<open>
  A resident page (page 1 of f, unpinned, in frame 0) and a page that was never cached
  (page 7 of g, on the fresh pool).
\<close>

theorem disposePage_ok_witness:
  "wf_BufMgr pool1_unpinned \<and> hashTable pool1_unpinned (''f'', 1) = Some 0 \<and>
   fst (disposePage ''f'' 1 pool1_unpinned) = Inr () \<and>
   hashTable (snd (disposePage ''f'' 1 pool1_unpinned)) (''f'', 1) = None \<and>
   \<not> valid (bufDescTable (snd (disposePage ''f'' 1 pool1_unpinned)) ! 0) \<and>
   calls (store (snd (disposePage ''f'' 1 pool1_unpinned))) = [IoRead ''f'' 1, IoDelete ''f'' 1] \<and>
   wf_BufMgr pool1 \<and> hashTable pool1 (''g'', 7) = None \<and>
   fst (disposePage ''g'' 7 pool1) = Inr () \<and>
   calls (store (snd (disposePage ''g'' 7 pool1))) = [IoDelete ''g'' 7] \<and>
   bufDescTable (snd (disposePage ''g'' 7 pool1)) = bufDescTable pool1"
proof -
  have h1: "hashTable pool1_unpinned (''f'', 1) = Some 0"
    and c1: "calls (store pool1_unpinned) = [IoRead ''f'' 1]"
    by (simp_all add: pool1_unpinned_eq)
  have h2: "hashTable pool1 (''g'', 7) = None"
    and c2: "calls (store pool1) = []"
    by (simp_all add: pool1_def BufMgr_new_def empty_store_def)
  show ?thesis
    using disposePage_ok [OF wf_pool1_unpinned, of "''f''" 1]
      disposePage_ok [OF wf_pool1, of "''g''" 7]
      h1 c1 h2 c2 wf_pool1_unpinned wf_pool1
    by auto
qed

text \<open>
  Claim C10. \<^verbatim>\<open>disposePage\<close> on a page that is resident in frame \<open>fr\<close> with a pin count
  above 0 checks nothing: it returns normally, having cleared the descriptor (not valid,
  pin count 0), removed the index entry and asked the Page Store to delete the page, and
  having changed nothing else.
\<close>

theorem disposePage_pinned:
  assumes "wf_BufMgr s" and "hashTable s (f, p) = Some fr"
    and "0 < pinCnt (bufDescTable s ! fr)"
  shows "disposePage f p s =
           (Inr (), file_deletePage f p (hashTable_remove f p
                      (set_desc fr (BufDesc_clear (bufDescTable s ! fr)) s))) \<and>
         \<not> valid (bufDescTable (snd (disposePage f p s)) ! fr) \<and>
         pinCnt (bufDescTable (snd (disposePage f p s)) ! fr) = 0 \<and>
         hashTable (snd (disposePage f p s)) (f, p) = None \<and>
         calls (store (snd (disposePage f p s))) = calls (store s) @ [IoDelete f p]"
proof -
  have "fr < length (bufDescTable s)"
    using assms by (simp add: wf_BufMgr_def)
  with assms(2) show ?thesis
    by (simp add: disposePage_def hashTable_lookup_def file_deletePage_def store_deletePage_def
        Let_def set_desc_def hashTable_remove_def BufDesc_clear_def)
qed

text \<open>The page read once and still pinned, in the pool of one frame.\<close>

theorem disposePage_pinned_witness:
  "wf_BufMgr pool1_pinned \<and> hashTable pool1_pinned (''f'', 1) = Some 0 \<and>
   pinCnt (bufDescTable pool1_pinned ! 0) = 1 \<and>
   fst (disposePage ''f'' 1 pool1_pinned) = Inr () \<and>
   \<not> valid (bufDescTable (snd (disposePage ''f'' 1 pool1_pinned)) ! 0) \<and>
   hashTable (snd (disposePage ''f'' 1 pool1_pinned)) (''f'', 1) = None \<and>
   calls (store (snd (disposePage ''f'' 1 pool1_pinned))) = [IoRead ''f'' 1, IoDelete ''f'' 1]"
proof -
  have h: "hashTable pool1_pinned (''f'', 1) = Some 0"
    and p: "pinCnt (bufDescTable pool1_pinned ! 0) = 1"
    and c: "calls (store pool1_pinned) = [IoRead ''f'' 1]"
    by (simp_all add: pool1_pinned_eq)
  have p': "0 < pinCnt (bufDescTable pool1_pinned ! 0)"
    using p by simp
  show ?thesis
    using disposePage_pinned [OF wf_pool1_pinned h p'] h p c wf_pool1_pinned
    by auto
qed

end
